theory Spec2Isabelle
  imports Main "HOL-Library.Word" "HOL-Library.Multiset"
begin

unbundle bit_operations_syntax

section \<open>Machine integer types\<close>

type_synonym u8 = "8 word"
type_synonym u16 = "16 word"
type_synonym u32 = "32 word"
type_synonym u64 = "64 word"

section \<open>Reliable receive buffer (network/reliable.cpp, network/reliable.h)\<close>

subsection \<open>Sequence number extrapolation\<close>

text \<open>
  \<^verbatim>\<open>compute_full_seqnum(u64 base, u16 seqnum)\<close>: the two differences are computed in
  16 bits (the assignment to a \<^verbatim>\<open>u16\<close> truncates), the comparison
  \<^verbatim>\<open>backward_diff > base\<close> and the final sum or difference are computed in 64 bits.
\<close>

definition compute_full_seqnum :: "u64 \<Rightarrow> u16 \<Rightarrow> u64" where
  "compute_full_seqnum base seqnum =
     (let base_mod = (ucast (base AND 0xFFFF) :: u16);
          forward_diff = seqnum - base_mod;
          backward_diff = base_mod - seqnum
      in if forward_diff \<le> 32768 \<or> (ucast backward_diff :: u64) > base
         then base + ucast forward_diff
         else base - ucast backward_diff)"


subsection \<open>Received packets (network/packet.h)\<close>

datatype ReceivedPacketType =
  RPT_INVALID | RPT_ORIGINAL | RPT_ACK | RPT_SET_PEER_ID | RPT_PING | RPT_DISCO | RPT_SPLIT

text \<open>
  \<^verbatim>\<open>struct ReceivedPacket\<close>. The array \<^verbatim>\<open>data[PACKET_MAXSIZE]\<close> together with
  \<^verbatim>\<open>data_size\<close> is the byte list \<open>data\<close>; the pointer \<^verbatim>\<open>contents\<close> into that array is
  kept as an offset. The nested structs are flattened into prefixed fields. The source
  address and the random log tag \<^verbatim>\<open>uuid\<close> play no role in any decision and are left out.
\<close>

record ReceivedPacket =
  received_time_ms :: u64
  data :: "u8 list"
  protocol_id :: u32
  peer_id :: u16
  channelnum :: u8
  rtype :: ReceivedPacketType
  is_reliable :: bool
  reliable_seqnum :: u16
  reliable_full_seqnum :: u64
  ack_seqnum :: u16
  set_peer_id_new_peer_id :: u16
  split_seqnum :: u16
  split_chunk_count :: u16
  split_chunk_num :: u16
  contents :: nat
  contents_size :: nat

subsection \<open>The reorder buffer\<close>

definition MAX_RELIABLE_WINDOW_SIZE :: u64 where
  "MAX_RELIABLE_WINDOW_SIZE = 0x8000"

definition SEQNUM_INITIAL :: u64 where
  "SEQNUM_INITIAL = 65500"

text \<open>
  \<^verbatim>\<open>std::priority_queue<ReceivedPacket*, std::vector<ReceivedPacket*>, OrderByFullSeqNum>\<close>
  is a container adaptor: \<^verbatim>\<open>push\<close> appends to the vector and calls \<^verbatim>\<open>std::push_heap\<close>,
  \<^verbatim>\<open>pop\<close> calls \<^verbatim>\<open>std::pop_heap\<close> and drops the last element, \<^verbatim>\<open>top\<close> is the front of
  the vector. The C++ standard fixes what these calls achieve: the elements are kept, one is
  added or the top is removed, and the top is an element with the least \<^verbatim>\<open>full_seqnum\<close>.
  How the vector is arranged, and with it which of several packets of equal
  \<^verbatim>\<open>full_seqnum\<close> is handed out, is the library's business. So the library is a parameter
  of the model: three functions on the vector, which is a list here.
\<close>

record priority_queue_impl =
  impl_push :: "ReceivedPacket \<Rightarrow> ReceivedPacket list \<Rightarrow> ReceivedPacket list"
  impl_top :: "ReceivedPacket list \<Rightarrow> ReceivedPacket"
  impl_pop :: "ReceivedPacket list \<Rightarrow> ReceivedPacket list"

text \<open>
  The three operations of the queue. Each one is the library's function as long as its
  result meets the standard; a result that does not is replaced by that of a reference
  queue (append, first least element, removal of the top). Every value of the parameter
  thus behaves as a conforming library, and every conforming library is a value of the
  parameter.
\<close>

definition queue_top :: "priority_queue_impl \<Rightarrow> ReceivedPacket list \<Rightarrow> ReceivedPacket" where
  "queue_top lib q =
     (let t = impl_top lib q
      in if t \<in> set q \<and> list_all (\<lambda>p. reliable_full_seqnum t \<le> reliable_full_seqnum p) q
         then t else arg_min_list reliable_full_seqnum q)"

definition queue_pop :: "priority_queue_impl \<Rightarrow> ReceivedPacket list \<Rightarrow> ReceivedPacket list" where
  "queue_pop lib q =
     (let r = impl_pop lib q
      in if mset r = mset q - {#queue_top lib q#} then r else remove1 (queue_top lib q) q)"

definition queue_push ::
  "priority_queue_impl \<Rightarrow> ReceivedPacket \<Rightarrow> ReceivedPacket list \<Rightarrow> ReceivedPacket list" where
  "queue_push lib p q =
     (let r = impl_push lib p q
      in if mset r = add_mset p (mset q) then r else q @ [p])"

text \<open>
  Two libraries for concrete runs: among packets of equal \<^verbatim>\<open>full_seqnum\<close> the first one
  hands out the packet queued first, the second one the packet queued last.
\<close>

definition earliest_first :: priority_queue_impl where
  "earliest_first =
     \<lparr>impl_push = (\<lambda>p q. q @ [p]),
      impl_top = arg_min_list reliable_full_seqnum,
      impl_pop = (\<lambda>q. remove1 (arg_min_list reliable_full_seqnum q) q)\<rparr>"

definition latest_first :: priority_queue_impl where
  "latest_first =
     \<lparr>impl_push = (\<lambda>p q. p # q),
      impl_top = arg_min_list reliable_full_seqnum,
      impl_pop = (\<lambda>q. remove1 (arg_min_list reliable_full_seqnum q) q)\<rparr>"

record ReliableReceivedPacketBuffer =
  next_incoming_seqnum :: u64
  m_queue :: "ReceivedPacket list"

text \<open>
  The two callbacks are external. They act on an environment \<open>'e\<close> that the buffer never
  looks at; \<^verbatim>\<open>processPacket\<close> also returns whether to continue. Every invocation is
  recorded, in order, as an event; a \<open>ProcessPacket\<close> event keeps the callback's answer.
\<close>

datatype event = SendAck ReceivedPacket | ProcessPacket ReceivedPacket bool

text \<open>
  The ways a call can end other than by returning: a failed \<^verbatim>\<open>assert\<close>, a failed
  \<^verbatim>\<open>sanity_check\<close> (both abort), and the dereference of a null pointer.
\<close>

datatype failure = AssertionFailed | SanityCheckFailed | NullPointer

type_synonym 'e SendAckFunc = "ReceivedPacket \<Rightarrow> 'e \<Rightarrow> 'e"
type_synonym 'e ProcessPacketFunc = "ReceivedPacket \<Rightarrow> 'e \<Rightarrow> bool \<times> 'e"

function flush :: "priority_queue_impl \<Rightarrow> 'e ProcessPacketFunc
    \<Rightarrow> ReliableReceivedPacketBuffer \<Rightarrow> 'e
    \<Rightarrow> ReliableReceivedPacketBuffer \<times> 'e \<times> event list" where
  "flush lib processPacket b e =
     (if m_queue b \<noteq> [] \<and>
         reliable_full_seqnum (queue_top lib (m_queue b)) \<le> next_incoming_seqnum b
      then
        (let rpkt = queue_top lib (m_queue b);
             b1 = b\<lparr>m_queue := queue_pop lib (m_queue b)\<rparr>
         in if reliable_full_seqnum rpkt < next_incoming_seqnum b1
            then flush lib processPacket b1 e
            else
              (let b2 = b1\<lparr>next_incoming_seqnum := next_incoming_seqnum b1 + 1\<rparr>;
                   (continue, e1) = processPacket rpkt e
               in if \<not> continue then (b2, e1, [ProcessPacket rpkt False])
                  else (case flush lib processPacket b2 e1 of
                          (b3, e3, evs) \<Rightarrow> (b3, e3, ProcessPacket rpkt True # evs))))
      else (b, e, []))"
  by pat_completeness auto

termination
proof -
  have shorter: "length (queue_pop lib q) < length q" if ne: "q \<noteq> []"
    for lib and q :: "ReceivedPacket list"
  proof -
    have top: "queue_top lib q \<in> set q"
      using ne by (simp add: queue_top_def Let_def arg_min_list_in)
    have "mset (queue_pop lib q) = mset q - {#queue_top lib q#}"
      by (simp add: queue_pop_def Let_def)
    then have "size (mset (queue_pop lib q)) = size (mset q) - 1"
      using top by (simp add: size_Diff_singleton)
    then show ?thesis using ne by (cases q) simp_all
  qed
  show ?thesis
    by (relation "measure (\<lambda>(lib, pp, b, e). length (m_queue b))")
       (simp_all add: shorter)
qed

text \<open>
  \<^verbatim>\<open>ReliableReceivedPacketBuffer::insert\<close>. The leading \<^verbatim>\<open>assert(rpkt->is_reliable)\<close> is
  the only way the call can fail.
\<close>

definition ReliableReceivedPacketBuffer_insert ::
  "priority_queue_impl \<Rightarrow> 'e SendAckFunc \<Rightarrow> 'e ProcessPacketFunc \<Rightarrow> ReceivedPacket
    \<Rightarrow> ReliableReceivedPacketBuffer \<Rightarrow> 'e
    \<Rightarrow> failure + (ReliableReceivedPacketBuffer \<times> 'e \<times> event list)" where
  "ReliableReceivedPacketBuffer_insert lib sendAck processPacket rpkt0 b e =
     (if \<not> is_reliable rpkt0 then Inl AssertionFailed
      else
        (let full_seqnum = compute_full_seqnum (next_incoming_seqnum b) (reliable_seqnum rpkt0);
             rpkt = rpkt0\<lparr>reliable_full_seqnum := full_seqnum\<rparr>
         in if full_seqnum > next_incoming_seqnum b + MAX_RELIABLE_WINDOW_SIZE
            then Inr (b, e, [])
            else
              (let e1 = sendAck rpkt e
               in if full_seqnum < next_incoming_seqnum b
                  then Inr (b, e1, [SendAck rpkt])
                  else if next_incoming_seqnum b = reliable_full_seqnum rpkt
                  then
                    (let b1 = b\<lparr>next_incoming_seqnum := next_incoming_seqnum b + 1\<rparr>;
                         (continue, e2) = processPacket rpkt e1
                     in if \<not> continue
                        then Inr (b1, e2, [SendAck rpkt, ProcessPacket rpkt False])
                        else (case flush lib processPacket b1 e2 of
                                (b2, e3, evs) \<Rightarrow>
                                  Inr (b2, e3, SendAck rpkt # ProcessPacket rpkt True # evs)))
                  else Inr (b\<lparr>m_queue := queue_push lib rpkt (m_queue b)\<rparr>, e1,
                            [SendAck rpkt]))))"

text \<open>Observations on an event list: the packets acknowledged and the packets delivered.\<close>

fun acks :: "event list \<Rightarrow> ReceivedPacket list" where
  "acks [] = []"
| "acks (SendAck p # evs) = p # acks evs"
| "acks (ProcessPacket p c # evs) = acks evs"

fun deliveries :: "event list \<Rightarrow> ReceivedPacket list" where
  "deliveries [] = []"
| "deliveries (SendAck p # evs) = deliveries evs"
| "deliveries (ProcessPacket p c # evs) = p # deliveries evs"

text \<open>Whether some \<^verbatim>\<open>processPacket\<close> call of the event list answered \<^emph>\<open>stop\<close>.\<close>

fun stopped :: "event list \<Rightarrow> bool" where
  "stopped [] = False"
| "stopped (SendAck p # evs) = stopped evs"
| "stopped (ProcessPacket p c # evs) = (\<not> c \<or> stopped evs)"

text \<open>
  The receive task hands the arriving packets to \<^verbatim>\<open>insert\<close> one after the other; the
  events of the calls are concatenated.
\<close>

fun insert_all ::
  "priority_queue_impl \<Rightarrow> 'e SendAckFunc \<Rightarrow> 'e ProcessPacketFunc \<Rightarrow> ReceivedPacket list
    \<Rightarrow> ReliableReceivedPacketBuffer \<Rightarrow> 'e
    \<Rightarrow> failure + (ReliableReceivedPacketBuffer \<times> 'e \<times> event list)" where
  "insert_all lib sendAck processPacket [] b e = Inr (b, e, [])"
| "insert_all lib sendAck processPacket (rpkt # rest) b e =
     (case ReliableReceivedPacketBuffer_insert lib sendAck processPacket rpkt b e of
        Inl f \<Rightarrow> Inl f
      | Inr (b1, e1, evs1) \<Rightarrow>
          (case insert_all lib sendAck processPacket rest b1 e1 of
             Inl f \<Rightarrow> Inl f
           | Inr (b2, e2, evs2) \<Rightarrow> Inr (b2, e2, evs1 @ evs2)))"

text \<open>\<^verbatim>\<open>ReceivedPacket::make()\<close>: a zero-initialised packet.\<close>

definition ReceivedPacket_make :: ReceivedPacket where
  "ReceivedPacket_make =
     \<lparr>received_time_ms = 0, data = [], protocol_id = 0, peer_id = 0, channelnum = 0,
      rtype = RPT_INVALID, is_reliable = False, reliable_seqnum = 0,
      reliable_full_seqnum = 0, ack_seqnum = 0, set_peer_id_new_peer_id = 0,
      split_seqnum = 0, split_chunk_count = 0, split_chunk_num = 0,
      contents = 0, contents_size = 0\<rparr>"

text \<open>
  What the recorded events mean for the environment: \<open>callbacks_applied\<close> holds when \<open>e'\<close>
  is the environment that results from \<open>e\<close> by invoking the callbacks as the events say, one
  after the other, and every recorded answer of \<^verbatim>\<open>processPacket\<close> is the answer the
  callback gave at that moment.
\<close>

fun callbacks_applied ::
  "'e SendAckFunc \<Rightarrow> 'e ProcessPacketFunc \<Rightarrow> event list \<Rightarrow> 'e \<Rightarrow> 'e \<Rightarrow> bool" where
  "callbacks_applied sendAck processPacket [] e e' = (e' = e)"
| "callbacks_applied sendAck processPacket (SendAck p # evs) e e' =
     callbacks_applied sendAck processPacket evs (sendAck p e) e'"
| "callbacks_applied sendAck processPacket (ProcessPacket p c # evs) e e' =
     (fst (processPacket p e) = c \<and>
      callbacks_applied sendAck processPacket evs (snd (processPacket p e)) e')"

text \<open>
  Material for concrete runs: a reliable packet with a given wire sequence number, the same
  packet once \<^verbatim>\<open>insert\<close> has stamped it with its full sequence number, a freshly constructed
  buffer, and callbacks whose environment counts the invocations of \<^verbatim>\<open>sendAck\<close> and of
  \<^verbatim>\<open>processPacket\<close>.
\<close>

definition reliable_packet :: "u16 \<Rightarrow> ReceivedPacket" where
  "reliable_packet s = ReceivedPacket_make\<lparr>is_reliable := True, reliable_seqnum := s\<rparr>"

definition stamped :: "u16 \<Rightarrow> u64 \<Rightarrow> ReceivedPacket" where
  "stamped s n = (reliable_packet s)\<lparr>reliable_full_seqnum := n\<rparr>"

definition new_buffer :: "u64 \<Rightarrow> ReliableReceivedPacketBuffer" where
  "new_buffer s = \<lparr>next_incoming_seqnum = s, m_queue = []\<rparr>"

definition count_ack :: "(nat \<times> nat) SendAckFunc" where
  "count_ack rpkt = (\<lambda>(a, d). (Suc a, d))"

definition count_process :: "(nat \<times> nat) ProcessPacketFunc" where
  "count_process rpkt = (\<lambda>(a, d). (True, (a, Suc d)))"

definition count_process_stop_at :: "u64 \<Rightarrow> (nat \<times> nat) ProcessPacketFunc" where
  "count_process_stop_at n rpkt = (\<lambda>(a, d). (reliable_full_seqnum rpkt \<noteq> n, (a, Suc d)))"

text \<open>The \<open>n\<close> consecutive 64-bit sequence numbers from \<open>s\<close> on.\<close>

definition consecutive :: "u64 \<Rightarrow> nat \<Rightarrow> u64 list" where
  "consecutive s n = map (\<lambda>i. s + of_nat i) [0..<n]"



section \<open>Wire parser (network/packet.cpp, network/packet.h, network/binreader.h)\<close>

subsection \<open>Constants of the packet grammar\<close>

definition CHANNEL_COUNT :: u8 where "CHANNEL_COUNT = 3"

definition PACKET_TYPE_CONTROL :: u8 where "PACKET_TYPE_CONTROL = 0"
definition PACKET_TYPE_ORIGINAL :: u8 where "PACKET_TYPE_ORIGINAL = 1"
definition PACKET_TYPE_SPLIT :: u8 where "PACKET_TYPE_SPLIT = 2"
definition PACKET_TYPE_RELIABLE :: u8 where "PACKET_TYPE_RELIABLE = 3"
definition PACKET_TYPE_MAX :: u8 where "PACKET_TYPE_MAX = 4"

definition CONTROLTYPE_ACK :: u8 where "CONTROLTYPE_ACK = 0"
definition CONTROLTYPE_SET_PEER_ID :: u8 where "CONTROLTYPE_SET_PEER_ID = 1"
definition CONTROLTYPE_PING :: u8 where "CONTROLTYPE_PING = 2"
definition CONTROLTYPE_DISCO :: u8 where "CONTROLTYPE_DISCO = 3"

subsection \<open>The bounds-checked reader\<close>

text \<open>
  Each \<^verbatim>\<open>throw ParseError(...)\<close> of the parser and of the reader is one constructor,
  carrying the values the message is formatted from.
\<close>

datatype ParseError =
    UnexpectedEOF nat
  | WrongProtocolId u32
  | InvalidChannel u8
  | InvalidRawType u8
  | InvalidControlType u8
  | ChunkNumTooLarge u16 u16
  | NestedReliable
  | InvalidPacketType u8
  | EmptyContents

text \<open>
  \<^verbatim>\<open>class BinReader\<close>: the buffer (\<^verbatim>\<open>m_size\<close> is its length) and the position. The field
  \<open>m_accessed\<close> is not in the source: it records, in order, every index of the buffer
  that a read dereferences, so that reading outside the buffer can be stated.
\<close>

record BinReader =
  m_data :: "u8 list"
  m_pos :: nat
  m_accessed :: "nat list"

definition BinReader_new :: "u8 list \<Rightarrow> BinReader" where
  "BinReader_new bytes = \<lparr>m_data = bytes, m_pos = 0, m_accessed = []\<rparr>"

text \<open>
  A reading step either throws or returns a value; the reader survives in both cases.
\<close>

type_synonym 'a reading = "BinReader \<Rightarrow> (ParseError + 'a) \<times> BinReader"

definition throw :: "ParseError \<Rightarrow> 'a reading" where
  "throw err r = (Inl err, r)"

definition ret :: "'a \<Rightarrow> 'a reading" where
  "ret x r = (Inr x, r)"

definition and_then :: "'a reading \<Rightarrow> ('a \<Rightarrow> 'b reading) \<Rightarrow> 'b reading" where
  "and_then f g r = (case f r of (Inl err, r1) \<Rightarrow> (Inl err, r1) | (Inr x, r1) \<Rightarrow> g x r1)"

text \<open>\<^verbatim>\<open>BinReader::_read(n)\<close> returns the cursor, here the index it points to.\<close>

definition BinReader_read :: "nat \<Rightarrow> nat reading" where
  "BinReader_read n r =
     (if m_pos r + n > length (m_data r)
      then (Inl (UnexpectedEOF (length (m_data r))), r)
      else (Inr (m_pos r), r\<lparr>m_pos := m_pos r + n\<rparr>))"

text \<open>
  Modelled from the spec: the functions \<^verbatim>\<open>::readU8\<close>, \<^verbatim>\<open>::readU16\<close> and \<^verbatim>\<open>::readU32\<close> of
  \<^verbatim>\<open>util/serialize.h\<close>, which is not among the sources. The spec fixes all multi-byte
  fields as big-endian. \<open>deref\<close> is the access to one byte of the buffer.
\<close>

definition deref :: "nat \<Rightarrow> u8 reading" where
  "deref i r = (Inr (m_data r ! i), r\<lparr>m_accessed := m_accessed r @ [i]\<rparr>)"

definition u16_of_bytes :: "u8 \<Rightarrow> u8 \<Rightarrow> u16" where
  "u16_of_bytes b0 b1 = push_bit 8 (ucast b0) OR ucast b1"

definition u32_of_bytes :: "u8 \<Rightarrow> u8 \<Rightarrow> u8 \<Rightarrow> u8 \<Rightarrow> u32" where
  "u32_of_bytes b0 b1 b2 b3 =
     push_bit 24 (ucast b0) OR push_bit 16 (ucast b1) OR push_bit 8 (ucast b2) OR ucast b3"

definition readU8 :: "u8 reading" where
  "readU8 = and_then (BinReader_read 1) (\<lambda>c. deref c)"

definition readU16 :: "u16 reading" where
  "readU16 = and_then (BinReader_read 2) (\<lambda>c.
     and_then (deref c) (\<lambda>b0.
     and_then (deref (c + 1)) (\<lambda>b1. ret (u16_of_bytes b0 b1))))"

definition readU32 :: "u32 reading" where
  "readU32 = and_then (BinReader_read 4) (\<lambda>c.
     and_then (deref c) (\<lambda>b0.
     and_then (deref (c + 1)) (\<lambda>b1.
     and_then (deref (c + 2)) (\<lambda>b2.
     and_then (deref (c + 3)) (\<lambda>b3. ret (u32_of_bytes b0 b1 b2 b3))))))"

definition getPosition :: "nat reading" where
  "getPosition r = (Inr (m_pos r), r)"

subsection \<open>\<^verbatim>\<open>ReceivedPacket::parse\<close>\<close>

text \<open>
  The inner \<^verbatim>\<open>switch (control_type)\<close> of the \<^verbatim>\<open>PACKET_TYPE_CONTROL\<close> case. The packet is
  updated field by field as in the source.
\<close>

definition parse_control :: "ReceivedPacket \<Rightarrow> ReceivedPacket reading" where
  "parse_control p =
     and_then readU8 (\<lambda>control_type.
       if control_type = CONTROLTYPE_ACK then
         and_then readU16 (\<lambda>s. ret (p\<lparr>rtype := RPT_ACK, ack_seqnum := s\<rparr>))
       else if control_type = CONTROLTYPE_SET_PEER_ID then
         and_then readU16 (\<lambda>n. ret (p\<lparr>rtype := RPT_SET_PEER_ID, set_peer_id_new_peer_id := n\<rparr>))
       else if control_type = CONTROLTYPE_PING then ret (p\<lparr>rtype := RPT_PING\<rparr>)
       else if control_type = CONTROLTYPE_DISCO then ret (p\<lparr>rtype := RPT_DISCO\<rparr>)
       else throw (InvalidControlType control_type))"

text \<open>
  The \<^verbatim>\<open>switch (raw_type)\<close>; the result carries the flag \<^verbatim>\<open>cannot_be_empty\<close>.
\<close>

definition parse_by_type :: "u8 \<Rightarrow> ReceivedPacket \<Rightarrow> (ReceivedPacket \<times> bool) reading" where
  "parse_by_type raw_type p =
     (if raw_type = PACKET_TYPE_CONTROL then
        and_then (parse_control p) (\<lambda>p1. ret (p1, False))
      else if raw_type = PACKET_TYPE_ORIGINAL then
        ret (p\<lparr>rtype := RPT_ORIGINAL\<rparr>, True)
      else if raw_type = PACKET_TYPE_SPLIT then
        and_then readU16 (\<lambda>s.
        and_then readU16 (\<lambda>cc.
        and_then readU16 (\<lambda>cn.
          if cn \<ge> cc then throw (ChunkNumTooLarge cn cc)
          else ret (p\<lparr>rtype := RPT_SPLIT, split_seqnum := s, split_chunk_count := cc,
                        split_chunk_num := cn\<rparr>, True))))
      else if raw_type = PACKET_TYPE_RELIABLE then throw NestedReliable
      else throw (InvalidPacketType raw_type))"

text \<open>
  The end of \<^verbatim>\<open>parse()\<close>: \<^verbatim>\<open>contents\<close> and \<^verbatim>\<open>contents_size\<close> are taken from the reader's
  position, and an empty payload is refused where the type requires one.
\<close>

definition parse_contents :: "ReceivedPacket \<times> bool \<Rightarrow> ReceivedPacket reading" where
  "parse_contents = (\<lambda>(p, cannot_be_empty).
     and_then getPosition (\<lambda>pos.
       let p1 = p\<lparr>contents := pos, contents_size := length (data p) - pos\<rparr>
       in if cannot_be_empty \<and> contents_size p1 = 0 then throw EmptyContents else ret p1))"

text \<open>The part of \<^verbatim>\<open>parse()\<close> from \<^verbatim>\<open>type = RPT_INVALID\<close> on.\<close>

definition parse_typed :: "u8 \<Rightarrow> ReceivedPacket \<Rightarrow> ReceivedPacket reading" where
  "parse_typed raw_type p =
     and_then (parse_by_type raw_type (p\<lparr>rtype := RPT_INVALID\<rparr>)) parse_contents"

text \<open>
  \<^verbatim>\<open>ReceivedPacket::parse()\<close>. \<^verbatim>\<open>PROTOCOL_ID\<close> comes from \<^verbatim>\<open>network/networkprotocol.h\<close>,
  which is not among the sources, and is a parameter. The packet holds the received bytes
  in \<open>data\<close>; the remaining fields are overwritten as the source does, and
  \<^verbatim>\<open>is_reliable\<close> is only ever set, never cleared.
\<close>

definition parse_reading :: "u32 \<Rightarrow> ReceivedPacket \<Rightarrow> ReceivedPacket reading" where
  "parse_reading PROTOCOL_ID p =
     and_then readU32 (\<lambda>pid.
       if pid \<noteq> PROTOCOL_ID then throw (WrongProtocolId pid)
       else
         and_then readU16 (\<lambda>peer.
         and_then readU8 (\<lambda>chan.
           if chan \<ge> CHANNEL_COUNT then throw (InvalidChannel chan)
           else
             and_then readU8 (\<lambda>raw_type.
               if raw_type \<ge> PACKET_TYPE_MAX then throw (InvalidRawType raw_type)
               else if raw_type = PACKET_TYPE_RELIABLE then
                 and_then readU16 (\<lambda>s.
                 and_then readU8 (\<lambda>inner_type.
                   parse_typed inner_type
                     (p\<lparr>protocol_id := pid, peer_id := peer, channelnum := chan,
                        is_reliable := True, reliable_seqnum := s\<rparr>)))
               else
                 parse_typed raw_type
                   (p\<lparr>protocol_id := pid, peer_id := peer, channelnum := chan\<rparr>)))))"

definition parse :: "u32 \<Rightarrow> ReceivedPacket \<Rightarrow> (ParseError + ReceivedPacket) \<times> nat list" where
  "parse PROTOCOL_ID p =
     (case parse_reading PROTOCOL_ID p (BinReader_new (data p)) of
        (res, r) \<Rightarrow> (res, m_accessed r))"

text \<open>The payload a parsed packet exposes: \<^verbatim>\<open>contents_size\<close> bytes from \<^verbatim>\<open>contents\<close> on.\<close>

definition payload :: "ReceivedPacket \<Rightarrow> u8 list" where
  "payload p = take (contents_size p) (drop (contents p) (data p))"

subsection \<open>The packet grammar of the specification\<close>

text \<open>
  The wire layout as the specification gives it, as a datatype of well-formed datagrams
  and their serialisation (all multi-byte fields big-endian):
  base header \<^verbatim>\<open>[u32 protocol_id][u16 peer_id][u8 channel]\<close>, an optional reliable envelope
  \<^verbatim>\<open>[u8 type=3][u16 seqnum]\<close>, and then one of
  \<^verbatim>\<open>[u8 type=1][payload...]\<close>,
  \<^verbatim>\<open>[u8 type=2][u16 seqnum][u16 chunk_count][u16 chunk_num][payload...]\<close>,
  \<^verbatim>\<open>[u8 type=0][u8 control_type][subtype-specific fields]\<close>. Whatever follows the fields of
  a control packet is its residual payload as well.
\<close>

datatype control = Ack u16 | SetPeerId u16 | Ping | Disco

datatype body =
    Control control "u8 list"
  | Original "u8 list"
  | Split u16 u16 u16 "u8 list"

datatype datagram = Datagram u16 u8 "u16 option" body

definition be16 :: "u16 \<Rightarrow> u8 list" where
  "be16 w = [ucast (drop_bit 8 w), ucast w]"

definition be32 :: "u32 \<Rightarrow> u8 list" where
  "be32 w = [ucast (drop_bit 24 w), ucast (drop_bit 16 w), ucast (drop_bit 8 w), ucast w]"

fun serialize_control :: "control \<Rightarrow> u8 list" where
  "serialize_control (Ack s) = 0 # be16 s"
| "serialize_control (SetPeerId n) = 1 # be16 n"
| "serialize_control Ping = [2]"
| "serialize_control Disco = [3]"

fun body_header :: "body \<Rightarrow> u8 list" where
  "body_header (Control c rest) = 0 # serialize_control c"
| "body_header (Original pl) = [1]"
| "body_header (Split s cc cn pl) = 2 # be16 s @ be16 cc @ be16 cn"

fun body_payload :: "body \<Rightarrow> u8 list" where
  "body_payload (Control c rest) = rest"
| "body_payload (Original pl) = pl"
| "body_payload (Split s cc cn pl) = pl"

fun datagram_header :: "u32 \<Rightarrow> datagram \<Rightarrow> u8 list" where
  "datagram_header pid (Datagram peer chan rel b) =
     be32 pid @ be16 peer @ [chan] @ (case rel of None \<Rightarrow> [] | Some s \<Rightarrow> 3 # be16 s)
       @ body_header b"

fun datagram_payload :: "datagram \<Rightarrow> u8 list" where
  "datagram_payload (Datagram peer chan rel b) = body_payload b"

definition serialize :: "u32 \<Rightarrow> datagram \<Rightarrow> u8 list" where
  "serialize pid dg = datagram_header pid dg @ datagram_payload dg"

fun body_ok :: "body \<Rightarrow> bool" where
  "body_ok (Control c rest) = True"
| "body_ok (Original pl) = (pl \<noteq> [])"
| "body_ok (Split s cc cn pl) = (cn < cc \<and> pl \<noteq> [])"

fun well_formed :: "datagram \<Rightarrow> bool" where
  "well_formed (Datagram peer chan rel b) = (chan < CHANNEL_COUNT \<and> body_ok b)"

text \<open>The fields a successful parse is to leave in the packet.\<close>

fun body_fields :: "body \<Rightarrow> ReceivedPacket \<Rightarrow> ReceivedPacket" where
  "body_fields (Control (Ack s) rest) p = p\<lparr>rtype := RPT_ACK, ack_seqnum := s\<rparr>"
| "body_fields (Control (SetPeerId n) rest) p =
     p\<lparr>rtype := RPT_SET_PEER_ID, set_peer_id_new_peer_id := n\<rparr>"
| "body_fields (Control Ping rest) p = p\<lparr>rtype := RPT_PING\<rparr>"
| "body_fields (Control Disco rest) p = p\<lparr>rtype := RPT_DISCO\<rparr>"
| "body_fields (Original pl) p = p\<lparr>rtype := RPT_ORIGINAL\<rparr>"
| "body_fields (Split s cc cn pl) p =
     p\<lparr>rtype := RPT_SPLIT, split_seqnum := s, split_chunk_count := cc, split_chunk_num := cn\<rparr>"

fun reliable_fields :: "u16 option \<Rightarrow> ReceivedPacket \<Rightarrow> ReceivedPacket" where
  "reliable_fields None p = p"
| "reliable_fields (Some s) p = p\<lparr>is_reliable := True, reliable_seqnum := s\<rparr>"

definition parsed_fields :: "u32 \<Rightarrow> datagram \<Rightarrow> ReceivedPacket \<Rightarrow> ReceivedPacket" where
  "parsed_fields pid dg p =
     (case dg of Datagram peer chan rel b \<Rightarrow>
        (body_fields b
          (reliable_fields rel (p\<lparr>protocol_id := pid, peer_id := peer, channelnum := chan\<rparr>)))
        \<lparr>contents := length (datagram_header pid dg),
         contents_size := length (datagram_payload dg)\<rparr>)"

text \<open>
  A reading step stays within the buffer when it keeps the buffer and, started with all
  recorded accesses inside the buffer, ends with all recorded accesses inside the buffer.
\<close>

definition accesses_within :: "BinReader \<Rightarrow> bool" where
  "accesses_within r \<longleftrightarrow> (\<forall>i \<in> set (m_accessed r). i < length (m_data r))"

definition stays_within :: "'a reading \<Rightarrow> bool" where
  "stays_within f \<longleftrightarrow>
     (\<forall>r. m_data (snd (f r)) = m_data r \<and>
          (accesses_within r \<longrightarrow> accesses_within (snd (f r))))"

section \<open>Properties of the reliable receive buffer\<close>

subsection \<open>Sequence number extrapolation\<close>

lemma unat_base_mod: "unat (ucast ((base::u64) AND 0xFFFF) :: u16) = unat base mod 65536"
proof -
  have e: "(0xFFFF :: u64) = mask 16" by (simp add: mask_eq_exp_minus_1)
  have "unat (ucast (base AND mask 16) :: u16) = unat base mod 65536"
    by (simp add: take_bit_eq_mask[symmetric] unsigned_ucast_eq unsigned_take_bit_eq take_bit_eq_mod unat_mod)
  then show ?thesis unfolding e .
qed

lemma unat_ucast_16_64: "unat (ucast (x::u16) :: u64) = unat x"
proof -
  have "unat x < 2 ^ 16" using unsigned_less[of x] by simp
  then show ?thesis by (simp add: unsigned_ucast_eq take_bit_eq_mod)
qed

lemma unat_sub16: "unat ((x::u16) - y) = (unat x + 65536 - unat y) mod 65536"
proof -
  have "unat x < 65536" "unat y < 65536" using unsigned_less[of x] unsigned_less[of y] by simp_all
  then show ?thesis by (cases "unat y \<le> unat x") (simp_all add: unat_sub_if' mod_if)
qed

lemma cfs_unat:
  "unat (compute_full_seqnum base seqnum) =
    (let b = unat base; s = unat seqnum; bm = b mod 65536;
         f = (s + 65536 - bm) mod 65536; bw = (bm + 65536 - s) mod 65536
     in if f \<le> 32768 \<or> bw > b then (b + f) mod 2 ^ 64 else b - bw)"
  apply (simp add: compute_full_seqnum_def Let_def word_le_nat_alt word_less_nat_alt
      unat_ucast_16_64 unat_sub16 unat_base_mod unat_word_ariths)
  apply (auto simp: unat_sub word_le_nat_alt unat_ucast_16_64 unat_sub16 unat_base_mod)
  done



lemma mod_add_small:
  fixes r k M :: nat
  assumes "r < M" "k < M"
  shows "(r + k) mod M = (if r + k < M then r + k else r + k - M)"
proof (cases "r + k < M")
  case True then show ?thesis by simp
next
  case False
  then have "(r + k) mod M = (r + k - M) mod M" by (simp add: le_mod_geq)
  moreover have "r + k - M < M" using assms by simp
  ultimately show ?thesis using False by simp
qed

lemma fwd_aux:
  fixes b k M :: nat
  assumes "k < M"
  shows "((b + k) mod M + M - b mod M) mod M = k"
proof -
  have r: "b mod M < M" using assms by simp
  have "(b + k) mod M = (b mod M + k) mod M" by (simp add: mod_add_left_eq)
  also have "\<dots> = (if b mod M + k < M then b mod M + k else b mod M + k - M)"
    using r assms by (rule mod_add_small)
  finally have e: "(b + k) mod M = (if b mod M + k < M then b mod M + k else b mod M + k - M)" .
  show ?thesis
  proof (cases "b mod M + k < M")
    case True
    then have "(b + k) mod M + M - b mod M = k + M" using e by simp
    then show ?thesis using assms by simp
  next
    case False
    then have "(b + k) mod M + M - b mod M = k" using e by simp
    then show ?thesis using assms by simp
  qed
qed

lemma sub_mod_aux:
  fixes b k M :: nat
  assumes "k < M" "k \<le> b"
  shows "(b - k) mod M = (if k \<le> b mod M then b mod M - k else b mod M + M - k)"
proof -
  define q where "q = b div M"
  define r where "r = b mod M"
  have r: "r < M" using assms by (simp add: r_def)
  have b: "b = q * M + r" by (simp add: q_def r_def)
  show ?thesis
  proof (cases "k \<le> r")
    case True
    have "b - k = (r - k) + q * M" using True b by simp
    then have "(b - k) mod M = (r - k) mod M" by simp
    then show ?thesis using True r by (simp add: r_def[symmetric])
  next
    case False
    have "q \<noteq> 0" using False assms b by (cases "q = 0") auto
    then obtain q' where q: "q = Suc q'" by (cases q) auto
    have "b - k = (r + M - k) + q' * M" using False b q assms by simp
    then have "(b - k) mod M = (r + M - k) mod M" by simp
    then show ?thesis using False r assms by (simp add: r_def[symmetric])
  qed
qed

lemma bwd_aux:
  fixes b k M :: nat
  assumes "k < M" "k \<le> b"
  shows "(b mod M + M - (b - k) mod M) mod M = k"
proof -
  have r: "b mod M < M" using assms by simp
  show ?thesis
  proof (cases "k \<le> b mod M")
    case True
    then have "b mod M + M - (b - k) mod M = k + M" using assms r by (simp add: sub_mod_aux)
    then show ?thesis using assms by simp
  next
    case False
    then have "b mod M + M - (b - k) mod M = k" using assms r by (simp add: sub_mod_aux)
    then show ?thesis using assms by simp
  qed
qed

lemma bwd_aux2:
  fixes b k M :: nat
  assumes "0 < k" "k < M" "k \<le> b"
  shows "((b - k) mod M + M - b mod M) mod M = M - k"
proof -
  have r: "b mod M < M" using assms by simp
  show ?thesis
  proof (cases "k \<le> b mod M")
    case True
    then have "(b - k) mod M + M - b mod M = M - k" using assms r by (simp add: sub_mod_aux)
    then show ?thesis using assms by simp
  next
    case False
    then have "(b - k) mod M + M - b mod M = (M - k) + M" using assms r by (simp add: sub_mod_aux)
    then have "((b - k) mod M + M - b mod M) mod M = (M - k) mod M" by (simp del: add_diff_assoc2 add_diff_assoc)
    then show ?thesis using assms by simp
  qed
qed


lemma unat_of_nat16: "unat (of_nat n :: u16) = n mod 65536"
  by (simp add: unat_of_nat)

lemma cfs_forward:
  assumes "unat base + k < 2 ^ 64" "k \<le> 32768"
  shows "compute_full_seqnum base (of_nat ((unat base + k) mod 65536)) = base + of_nat k"
proof -
  have k: "k < 65536" using assms by simp
  have f: "((unat base + k) mod 65536 + 65536 - unat base mod 65536) mod 65536 = k"
    using k by (rule fwd_aux)
  have "unat (compute_full_seqnum base (of_nat ((unat base + k) mod 65536))) = unat base + k"
    using assms f by (simp add: cfs_unat unat_of_nat16 Let_def)
  moreover have "unat (base + of_nat k) = unat base + k"
    using assms by (simp add: unat_word_ariths unat_of_nat)
  ultimately show ?thesis by (simp add: word_unat_eq_iff)
qed

lemma cfs_backward:
  assumes "1 \<le> k" "k \<le> 32767" "k \<le> unat base"
  shows "compute_full_seqnum base (of_nat ((unat base - k) mod 65536)) = base - of_nat k"
proof -
  have k: "k < 65536" "0 < k" using assms by simp_all
  have f: "((unat base - k) mod 65536 + 65536 - unat base mod 65536) mod 65536 = 65536 - k"
    using k assms(3) by (simp add: bwd_aux2)
  have bw: "(unat base mod 65536 + 65536 - (unat base - k) mod 65536) mod 65536 = k"
    using k assms(3) by (simp add: bwd_aux)
  have nf: "\<not> (65536 - k \<le> 32768)" using assms by arith
  have "unat (compute_full_seqnum base (of_nat ((unat base - k) mod 65536))) = unat base - k"
    using assms(3) nf by (simp add: cfs_unat unat_of_nat16 Let_def f bw)
  moreover have "unat (base - of_nat k) = unat base - k"
  proof -
    have b64: "unat base < 2 ^ 64" using unsigned_less[of base] by simp
    have "unat (of_nat k :: u64) = k" using assms b64 by (simp add: unat_of_nat)
    moreover have "(of_nat k :: u64) \<le> base" using assms calculation by (simp add: word_le_nat_alt)
    ultimately show ?thesis by (simp add: unat_sub)
  qed
  ultimately show ?thesis by (simp add: word_unat_eq_iff)
qed


text \<open>
  Claim C2 as stated fails at the tie \<open>k = 32768\<close> of the backward identity: the wire
  number \<open>(base - 32768) mod 2^16\<close> is also \<open>(base + 32768) mod 2^16\<close>, and the code
  prefers the forward reading. At \<open>base = 32768\<close> the wire number is \<open>0\<close>, the claim
  asks for \<open>0\<close> and the code returns \<open>65536\<close>.
\<close>

theorem C2_counterexample:
  "unat (32768 :: u64) < 2 ^ 40 \<and> (1::nat) \<le> 32768 \<and> (32768::nat) \<le> 32768 \<and>
   32768 \<le> unat (32768 :: u64) \<and>
   compute_full_seqnum 32768 (of_nat ((unat (32768 :: u64) - 32768) mod 65536))
     \<noteq> 32768 - of_nat 32768"
  by (simp add: compute_full_seqnum_def)

text \<open>
  Claim C2, amended: for every \<open>base < 2^40\<close>, the wire number of \<open>base\<close> extrapolates to
  \<open>base\<close>; the wire number of \<open>base + k\<close> extrapolates to \<open>base + k\<close> for every
  \<open>k \<in> [0, 32768]\<close>; and the wire number of \<open>base - j\<close> extrapolates to \<open>base - j\<close> for
  every \<open>j \<in> [1, 32767]\<close> with \<open>j \<le> base\<close>.
\<close>

theorem C2_compute_full_seqnum_identities:
  assumes "unat base < 2 ^ 40"
  shows "compute_full_seqnum base (of_nat (unat base mod 65536)) = base \<and>
         (k \<le> 32768 \<longrightarrow>
            compute_full_seqnum base (of_nat ((unat base + k) mod 65536)) = base + of_nat k) \<and>
         (1 \<le> j \<and> j \<le> 32767 \<and> j \<le> unat base \<longrightarrow>
            compute_full_seqnum base (of_nat ((unat base - j) mod 65536)) = base - of_nat j)"
proof (intro conjI impI)
  have "unat base + 0 < 2 ^ 64" using assms by simp
  from cfs_forward[OF this, of] show "compute_full_seqnum base (of_nat (unat base mod 65536)) = base"
    by simp
next
  assume "k \<le> 32768"
  moreover from this have "unat base + k < 2 ^ 64" using assms by simp
  ultimately show "compute_full_seqnum base (of_nat ((unat base + k) mod 65536)) = base + of_nat k"
    by (simp add: cfs_forward)
next
  assume "1 \<le> j \<and> j \<le> 32767 \<and> j \<le> unat base"
  then show "compute_full_seqnum base (of_nat ((unat base - j) mod 65536)) = base - of_nat j"
    by (simp add: cfs_backward)
qed

theorem C2_compute_full_seqnum_identities_witness:
  "compute_full_seqnum 65500 (of_nat (unat (65500 :: u64) mod 65536)) = 65500 \<and>
   compute_full_seqnum 65500 (of_nat ((unat (65500 :: u64) + 32768) mod 65536)) = 65500 + of_nat 32768 \<and>
   compute_full_seqnum 65500 (of_nat ((unat (65500 :: u64) - 32767) mod 65536)) = 65500 - of_nat 32767"
  using C2_compute_full_seqnum_identities [of 65500 32768 32767] by simp


subsection \<open>The priority queue\<close>

lemma queue_top_in: "q \<noteq> [] \<Longrightarrow> queue_top lib q \<in> set q"
  by (simp add: queue_top_def Let_def arg_min_list_in)

lemma queue_top_min:
  assumes "p \<in> set q"
  shows "reliable_full_seqnum (queue_top lib q) \<le> reliable_full_seqnum p"
proof -
  have ne: "q \<noteq> []" using assms by auto
  show ?thesis
  proof (cases "impl_top lib q \<in> set q \<and>
      list_all (\<lambda>p. reliable_full_seqnum (impl_top lib q) \<le> reliable_full_seqnum p) q")
    case True
    then show ?thesis using assms by (simp add: queue_top_def Let_def list_all_iff)
  next
    case False
    then have "queue_top lib q = arg_min_list reliable_full_seqnum q"
      by (auto simp: queue_top_def Let_def)
    then show ?thesis using assms ne by (simp add: f_arg_min_list_f)
  qed
qed

lemma queue_pop_mset: "mset (queue_pop lib q) = mset q - {#queue_top lib q#}"
  by (simp add: queue_pop_def Let_def)

lemma queue_pop_set:
  "q \<noteq> [] \<Longrightarrow> set (queue_pop lib q) \<subseteq> set q \<and>
     set q \<subseteq> insert (queue_top lib q) (set (queue_pop lib q))"
proof -
  have "set_mset (mset (queue_pop lib q)) \<subseteq> set_mset (mset q)"
    unfolding queue_pop_mset by (auto dest: in_diffD)
  moreover have "x \<in> set_mset (mset (queue_pop lib q))"
    if "x \<in> set q" "x \<noteq> queue_top lib q" for x
    unfolding queue_pop_mset using that by (simp add: in_diff_count)
  ultimately show ?thesis by auto
qed

lemma queue_pop_shorter: "q \<noteq> [] \<Longrightarrow> length (queue_pop lib q) < length q"
proof -
  assume ne: "q \<noteq> []"
  then have "queue_top lib q \<in># mset q" by (simp add: queue_top_in)
  then have "size (mset (queue_pop lib q)) = size (mset q) - 1"
    unfolding queue_pop_mset by (simp add: size_Diff_singleton)
  then show ?thesis using ne by (cases q) simp_all
qed

lemma queue_push_set: "set (queue_push lib p q) = insert p (set q)"
proof -
  have "mset (queue_push lib p q) = add_mset p (mset q)"
    by (simp add: queue_push_def Let_def)
  then have "set_mset (mset (queue_push lib p q)) = set_mset (add_mset p (mset q))"
    by simp
  then show ?thesis by simp
qed

text \<open>The two concrete libraries conform; their operations are the ones written down.\<close>

lemma earliest_first_simps:
  "queue_top earliest_first q = arg_min_list reliable_full_seqnum q"
  "queue_pop earliest_first q = remove1 (arg_min_list reliable_full_seqnum q) q"
  "queue_push earliest_first p q = q @ [p]"
  by (simp_all add: queue_top_def queue_pop_def queue_push_def earliest_first_def Let_def)

lemma latest_first_simps:
  "queue_top latest_first q = arg_min_list reliable_full_seqnum q"
  "queue_pop latest_first q = remove1 (arg_min_list reliable_full_seqnum q) q"
  "queue_push latest_first p q = p # q"
  by (simp_all add: queue_top_def queue_pop_def queue_push_def latest_first_def Let_def)


subsection \<open>The steps of \<^verbatim>\<open>flush\<close>\<close>

declare flush.simps [simp del]

lemma flush_idle:
  "\<not> (m_queue b \<noteq> [] \<and> reliable_full_seqnum (queue_top lib (m_queue b)) \<le> next_incoming_seqnum b)
    \<Longrightarrow> flush lib pp b e = (b, e, [])"
  by (subst flush.simps) auto

lemma flush_discard:
  "m_queue b \<noteq> [] \<Longrightarrow> reliable_full_seqnum (queue_top lib (m_queue b)) < next_incoming_seqnum b
    \<Longrightarrow> flush lib pp b e = flush lib pp (b\<lparr>m_queue := queue_pop lib (m_queue b)\<rparr>) e"
  by (subst flush.simps) (simp add: Let_def less_imp_le)

lemma flush_stop:
  "m_queue b \<noteq> [] \<Longrightarrow> reliable_full_seqnum (queue_top lib (m_queue b)) = next_incoming_seqnum b
    \<Longrightarrow> pp (queue_top lib (m_queue b)) e = (False, e1)
    \<Longrightarrow> flush lib pp b e = (b\<lparr>m_queue := queue_pop lib (m_queue b),
                              next_incoming_seqnum := next_incoming_seqnum b + 1\<rparr>, e1,
                           [ProcessPacket (queue_top lib (m_queue b)) False])"
  by (subst flush.simps) (simp add: Let_def)

lemma flush_continue:
  "m_queue b \<noteq> [] \<Longrightarrow> reliable_full_seqnum (queue_top lib (m_queue b)) = next_incoming_seqnum b
    \<Longrightarrow> pp (queue_top lib (m_queue b)) e = (True, e1)
    \<Longrightarrow> flush lib pp (b\<lparr>m_queue := queue_pop lib (m_queue b),
                       next_incoming_seqnum := next_incoming_seqnum b + 1\<rparr>) e1 = (b3, e3, evs)
    \<Longrightarrow> flush lib pp b e = (b3, e3, ProcessPacket (queue_top lib (m_queue b)) True # evs)"
  by (subst flush.simps) (simp add: Let_def)

lemma flush_cases_induct [case_names idle discard stop continue]:
  assumes idle: "\<And>b e. \<not> (m_queue b \<noteq> [] \<and>
        reliable_full_seqnum (queue_top lib (m_queue b)) \<le> next_incoming_seqnum b) \<Longrightarrow> P b e"
    and discard: "\<And>b e. m_queue b \<noteq> [] \<Longrightarrow>
        reliable_full_seqnum (queue_top lib (m_queue b)) < next_incoming_seqnum b \<Longrightarrow>
        P (b\<lparr>m_queue := queue_pop lib (m_queue b)\<rparr>) e \<Longrightarrow> P b e"
    and stop: "\<And>b e e1. m_queue b \<noteq> [] \<Longrightarrow>
        reliable_full_seqnum (queue_top lib (m_queue b)) = next_incoming_seqnum b \<Longrightarrow>
        pp (queue_top lib (m_queue b)) e = (False, e1) \<Longrightarrow> P b e"
    and continue: "\<And>b e e1. m_queue b \<noteq> [] \<Longrightarrow>
        reliable_full_seqnum (queue_top lib (m_queue b)) = next_incoming_seqnum b \<Longrightarrow>
        pp (queue_top lib (m_queue b)) e = (True, e1) \<Longrightarrow>
        P (b\<lparr>m_queue := queue_pop lib (m_queue b),
              next_incoming_seqnum := next_incoming_seqnum b + 1\<rparr>) e1 \<Longrightarrow> P b e"
  shows "P b e"
proof (induction "length (m_queue b)" arbitrary: b e rule: less_induct)
  case (less b e)
  show ?case
  proof (cases "m_queue b \<noteq> [] \<and>
        reliable_full_seqnum (queue_top lib (m_queue b)) \<le> next_incoming_seqnum b")
    case False
    then show ?thesis by (rule idle)
  next
    case True
    then have ne: "m_queue b \<noteq> []" by simp
    have sh: "length (queue_pop lib (m_queue b)) < length (m_queue b)"
      using ne by (rule queue_pop_shorter)
    show ?thesis
    proof (cases "reliable_full_seqnum (queue_top lib (m_queue b)) < next_incoming_seqnum b")
      case lt: True
      have "P (b\<lparr>m_queue := queue_pop lib (m_queue b)\<rparr>) e"
        using sh by (intro less) simp
      with ne lt show ?thesis by (rule discard)
    next
      case False
      with True have eq: "reliable_full_seqnum (queue_top lib (m_queue b)) = next_incoming_seqnum b"
        by simp
      obtain c e1 where pp: "pp (queue_top lib (m_queue b)) e = (c, e1)"
        by (cases "pp (queue_top lib (m_queue b)) e")
      show ?thesis
      proof (cases c)
        case False
        with pp have "pp (queue_top lib (m_queue b)) e = (False, e1)" by simp
        from stop[OF ne eq this] show ?thesis .
      next
        case c: True
        have "P (b\<lparr>m_queue := queue_pop lib (m_queue b),
              next_incoming_seqnum := next_incoming_seqnum b + 1\<rparr>) e1"
          using sh by (intro less) simp
        moreover from pp c have "pp (queue_top lib (m_queue b)) e = (True, e1)" by simp
        ultimately show ?thesis using continue[OF ne eq] by blast
      qed
    qed
  qed
qed


subsection \<open>What \<^verbatim>\<open>flush\<close> does\<close>

lemma flush_acks: "flush lib pp b e = (b', e', evs) \<Longrightarrow> acks evs = []"
proof (induction b e arbitrary: b' e' evs rule: flush_cases_induct[where pp = pp and lib = lib])
  case (idle b e)
  then show ?case by (simp add: flush_idle)
next
  case (discard b e)
  from discard(3)[of b' e' evs] discard(1,2,4) show ?case by (simp add: flush_discard)
next
  case (stop b e e1)
  then show ?case by (auto simp: flush_stop)
next
  case (continue b e e1)
  let ?b2 = "b\<lparr>m_queue := queue_pop lib (m_queue b),
              next_incoming_seqnum := next_incoming_seqnum b + 1\<rparr>"
  obtain b3 e3 evs' where fl: "flush lib pp ?b2 e1 = (b3, e3, evs')"
    by (cases "flush lib pp ?b2 e1")
  from flush_continue[OF continue(1,2,3) fl] continue(5)
  have r: "evs = ProcessPacket (queue_top lib (m_queue b)) True # evs'" by simp
  from continue(4)[OF fl] show ?case unfolding r by simp
qed

lemma flush_applied:
  "flush lib pp b e = (b', e', evs) \<Longrightarrow> callbacks_applied sa pp evs e e'"
proof (induction b e arbitrary: b' e' evs rule: flush_cases_induct[where pp = pp and lib = lib])
  case (idle b e)
  then show ?case by (simp add: flush_idle)
next
  case (discard b e)
  from discard(3)[of b' e' evs] discard(1,2,4) show ?case by (simp add: flush_discard)
next
  case (stop b e e1)
  then show ?case by (auto simp: flush_stop)
next
  case (continue b e e1)
  let ?b2 = "b\<lparr>m_queue := queue_pop lib (m_queue b),
              next_incoming_seqnum := next_incoming_seqnum b + 1\<rparr>"
  obtain b3 e3 evs' where fl: "flush lib pp ?b2 e1 = (b3, e3, evs')"
    by (cases "flush lib pp ?b2 e1")
  from flush_continue[OF continue(1,2,3) fl] continue(5)
  have r: "e' = e3" "evs = ProcessPacket (queue_top lib (m_queue b)) True # evs'" by simp_all
  from continue(4)[OF fl] continue(3) show ?case unfolding r by simp
qed


lemma consecutive_0: "consecutive s 0 = []"
  by (simp add: consecutive_def)

lemma consecutive_Suc: "consecutive s (Suc n) = s # consecutive (s + 1) n"
proof -
  have "[0..<Suc n] = 0 # map Suc [0..<n]"
    by (simp add: upt_conv_Cons map_Suc_upt del: upt_Suc)
  then show ?thesis by (simp add: consecutive_def comp_def add.assoc del: upt_Suc)
qed

lemma flush_deliveries:
  "flush lib pp b e = (b', e', evs) \<Longrightarrow>
     map reliable_full_seqnum (deliveries evs)
       = consecutive (next_incoming_seqnum b) (length (deliveries evs)) \<and>
     next_incoming_seqnum b' = next_incoming_seqnum b + of_nat (length (deliveries evs))"
proof (induction b e arbitrary: b' e' evs rule: flush_cases_induct[where pp = pp and lib = lib])
  case (idle b e)
  then show ?case by (simp add: flush_idle consecutive_0)
next
  case (discard b e)
  from discard(3)[of b' e' evs] discard(1,2,4) show ?case by (simp add: flush_discard)
next
  case (stop b e e1)
  then show ?case by (auto simp: flush_stop consecutive_0 consecutive_Suc)
next
  case (continue b e e1)
  let ?b2 = "b\<lparr>m_queue := queue_pop lib (m_queue b),
              next_incoming_seqnum := next_incoming_seqnum b + 1\<rparr>"
  obtain b3 e3 evs' where fl: "flush lib pp ?b2 e1 = (b3, e3, evs')"
    by (cases "flush lib pp ?b2 e1")
  from flush_continue[OF continue(1,2,3) fl] continue(5)
  have r: "b' = b3" "evs = ProcessPacket (queue_top lib (m_queue b)) True # evs'" by simp_all
  from continue(4)[OF fl]
  have ih: "map reliable_full_seqnum (deliveries evs')
              = consecutive (next_incoming_seqnum b + 1) (length (deliveries evs'))"
           "next_incoming_seqnum b3
              = next_incoming_seqnum b + 1 + of_nat (length (deliveries evs'))"
    by simp_all
  show ?case unfolding r using ih continue(2) by (simp add: consecutive_Suc)
qed


lemma flush_queue_above:
  "flush lib pp b e = (b', e', evs) \<Longrightarrow> \<not> stopped evs \<Longrightarrow>
     \<forall>p \<in> set (m_queue b'). next_incoming_seqnum b' < reliable_full_seqnum p"
proof (induction b e arbitrary: b' e' evs rule: flush_cases_induct[where pp = pp and lib = lib])
  case (idle b e)
  then have eq: "b' = b" by (simp add: flush_idle)
  show ?case
  proof
    fix p assume p: "p \<in> set (m_queue b')"
    then have ne: "m_queue b \<noteq> []" using eq by auto
    have "reliable_full_seqnum (queue_top lib (m_queue b)) \<le> reliable_full_seqnum p"
      using p eq by (simp add: queue_top_min)
    then show "next_incoming_seqnum b' < reliable_full_seqnum p" using idle(1) ne eq by auto
  qed
next
  case (discard b e)
  from discard(3)[of b' e' evs] discard(1,2,4,5) show ?case by (simp add: flush_discard)
next
  case (stop b e e1)
  then show ?case by (auto simp: flush_stop)
next
  case (continue b e e1)
  let ?b2 = "b\<lparr>m_queue := queue_pop lib (m_queue b),
              next_incoming_seqnum := next_incoming_seqnum b + 1\<rparr>"
  obtain b3 e3 evs' where fl: "flush lib pp ?b2 e1 = (b3, e3, evs')"
    by (cases "flush lib pp ?b2 e1")
  from flush_continue[OF continue(1,2,3) fl] continue(5)
  have r: "b' = b3" "evs = ProcessPacket (queue_top lib (m_queue b)) True # evs'" by simp_all
  from continue(4)[OF fl] continue(6) show ?case unfolding r by simp
qed

text \<open>
  When \<^verbatim>\<open>flush\<close> returns, whatever is left in the queue lies at or above
  \<^verbatim>\<open>next_incoming_seqnum\<close>, except that after a \<^emph>\<open>stop\<close> copies of the packet delivered
  last may remain.
\<close>

lemma flush_residents:
  "flush lib pp b e = (b', e', evs) \<Longrightarrow>
     \<forall>p \<in> set (m_queue b'). next_incoming_seqnum b' \<le> reliable_full_seqnum p \<or>
        (stopped evs \<and> reliable_full_seqnum p + 1 = next_incoming_seqnum b')"
proof (induction b e arbitrary: b' e' evs rule: flush_cases_induct[where pp = pp and lib = lib])
  case (idle b e)
  then have eq: "b' = b" by (simp add: flush_idle)
  show ?case
  proof
    fix p assume p: "p \<in> set (m_queue b')"
    then have ne: "m_queue b \<noteq> []" using eq by auto
    have "reliable_full_seqnum (queue_top lib (m_queue b)) \<le> reliable_full_seqnum p"
      using p eq by (simp add: queue_top_min)
    then have "next_incoming_seqnum b' < reliable_full_seqnum p" using idle(1) ne eq by auto
    then show "next_incoming_seqnum b' \<le> reliable_full_seqnum p \<or>
        (stopped evs \<and> reliable_full_seqnum p + 1 = next_incoming_seqnum b')"
      by (intro disjI1 less_imp_le)
  qed
next
  case (discard b e)
  from discard(3)[of b' e' evs] discard(1,2,4) show ?case by (simp add: flush_discard)
next
  case (stop b e e1)
  then have r: "b' = b\<lparr>m_queue := queue_pop lib (m_queue b),
                        next_incoming_seqnum := next_incoming_seqnum b + 1\<rparr>"
      "evs = [ProcessPacket (queue_top lib (m_queue b)) False]"
    by (simp_all add: flush_stop)
  show ?case
  proof
    fix p assume "p \<in> set (m_queue b')"
    then have p: "p \<in> set (m_queue b)" using r(1) queue_pop_set[OF stop(1), of lib] by auto
    then have "next_incoming_seqnum b \<le> reliable_full_seqnum p"
      using queue_top_min[OF p, of lib] stop(2) by simp
    then consider "next_incoming_seqnum b = reliable_full_seqnum p"
      | "next_incoming_seqnum b < reliable_full_seqnum p" by fastforce
    then show "next_incoming_seqnum b' \<le> reliable_full_seqnum p \<or>
        (stopped evs \<and> reliable_full_seqnum p + 1 = next_incoming_seqnum b')"
    proof cases
      case 1
      then show ?thesis unfolding r by simp
    next
      case 2
      then have "next_incoming_seqnum b + 1 \<le> reliable_full_seqnum p" by (rule inc_le)
      then show ?thesis unfolding r by simp
    qed
  qed
next
  case (continue b e e1)
  let ?b2 = "b\<lparr>m_queue := queue_pop lib (m_queue b),
              next_incoming_seqnum := next_incoming_seqnum b + 1\<rparr>"
  obtain b3 e3 evs' where fl: "flush lib pp ?b2 e1 = (b3, e3, evs')"
    by (cases "flush lib pp ?b2 e1")
  from flush_continue[OF continue(1,2,3) fl] continue(5)
  have r: "b' = b3" "evs = ProcessPacket (queue_top lib (m_queue b)) True # evs'" by simp_all
  from continue(4)[OF fl] show ?case unfolding r by simp
qed


subsection \<open>The branches of \<^verbatim>\<open>insert\<close>\<close>

lemma insert_not_reliable:
  "\<not> is_reliable rpkt \<Longrightarrow> ReliableReceivedPacketBuffer_insert lib sa pp rpkt b e = Inl AssertionFailed"
  by (simp add: ReliableReceivedPacketBuffer_insert_def)

lemma insert_far:
  assumes "is_reliable rpkt"
    and "next_incoming_seqnum b + MAX_RELIABLE_WINDOW_SIZE
           < compute_full_seqnum (next_incoming_seqnum b) (reliable_seqnum rpkt)"
  shows "ReliableReceivedPacketBuffer_insert lib sa pp rpkt b e = Inr (b, e, [])"
  using assms by (simp add: ReliableReceivedPacketBuffer_insert_def Let_def)

lemma insert_old:
  assumes "is_reliable rpkt"
    and "\<not> next_incoming_seqnum b + MAX_RELIABLE_WINDOW_SIZE
           < compute_full_seqnum (next_incoming_seqnum b) (reliable_seqnum rpkt)"
    and "compute_full_seqnum (next_incoming_seqnum b) (reliable_seqnum rpkt)
           < next_incoming_seqnum b"
    and "rpkt' = rpkt\<lparr>reliable_full_seqnum :=
           compute_full_seqnum (next_incoming_seqnum b) (reliable_seqnum rpkt)\<rparr>"
  shows "ReliableReceivedPacketBuffer_insert lib sa pp rpkt b e
           = Inr (b, sa rpkt' e, [SendAck rpkt'])"
  using assms by (simp add: ReliableReceivedPacketBuffer_insert_def Let_def)

lemma insert_stop:
  assumes "is_reliable rpkt"
    and "\<not> next_incoming_seqnum b + MAX_RELIABLE_WINDOW_SIZE
           < compute_full_seqnum (next_incoming_seqnum b) (reliable_seqnum rpkt)"
    and "compute_full_seqnum (next_incoming_seqnum b) (reliable_seqnum rpkt)
           = next_incoming_seqnum b"
    and "rpkt' = rpkt\<lparr>reliable_full_seqnum :=
           compute_full_seqnum (next_incoming_seqnum b) (reliable_seqnum rpkt)\<rparr>"
    and "pp rpkt' (sa rpkt' e) = (False, e2)"
  shows "ReliableReceivedPacketBuffer_insert lib sa pp rpkt b e
           = Inr (b\<lparr>next_incoming_seqnum := next_incoming_seqnum b + 1\<rparr>, e2,
                  [SendAck rpkt', ProcessPacket rpkt' False])"
  using assms by (simp add: ReliableReceivedPacketBuffer_insert_def Let_def)

lemma insert_go:
  assumes "is_reliable rpkt"
    and "\<not> next_incoming_seqnum b + MAX_RELIABLE_WINDOW_SIZE
           < compute_full_seqnum (next_incoming_seqnum b) (reliable_seqnum rpkt)"
    and "compute_full_seqnum (next_incoming_seqnum b) (reliable_seqnum rpkt)
           = next_incoming_seqnum b"
    and "rpkt' = rpkt\<lparr>reliable_full_seqnum :=
           compute_full_seqnum (next_incoming_seqnum b) (reliable_seqnum rpkt)\<rparr>"
    and "pp rpkt' (sa rpkt' e) = (True, e2)"
    and "flush lib pp (b\<lparr>next_incoming_seqnum := next_incoming_seqnum b + 1\<rparr>) e2
           = (b2, e3, evs)"
  shows "ReliableReceivedPacketBuffer_insert lib sa pp rpkt b e
           = Inr (b2, e3, SendAck rpkt' # ProcessPacket rpkt' True # evs)"
  using assms by (simp add: ReliableReceivedPacketBuffer_insert_def Let_def)

lemma insert_push:
  assumes "is_reliable rpkt"
    and "\<not> next_incoming_seqnum b + MAX_RELIABLE_WINDOW_SIZE
           < compute_full_seqnum (next_incoming_seqnum b) (reliable_seqnum rpkt)"
    and "next_incoming_seqnum b
           < compute_full_seqnum (next_incoming_seqnum b) (reliable_seqnum rpkt)"
    and "rpkt' = rpkt\<lparr>reliable_full_seqnum :=
           compute_full_seqnum (next_incoming_seqnum b) (reliable_seqnum rpkt)\<rparr>"
  shows "ReliableReceivedPacketBuffer_insert lib sa pp rpkt b e
           = Inr (b\<lparr>m_queue := queue_push lib rpkt' (m_queue b)\<rparr>, sa rpkt' e, [SendAck rpkt'])"
proof -
  have "\<not> compute_full_seqnum (next_incoming_seqnum b) (reliable_seqnum rpkt)
           < next_incoming_seqnum b"
       "next_incoming_seqnum b
          \<noteq> compute_full_seqnum (next_incoming_seqnum b) (reliable_seqnum rpkt)"
    using assms(3) by auto
  then show ?thesis
    using assms by (simp add: ReliableReceivedPacketBuffer_insert_def Let_def)
qed

subsection \<open>Acknowledgements and the acceptance window\<close>

text \<open>
  Every way a call of \<^verbatim>\<open>insert\<close> can return, with \<open>F\<close> the computed \<^verbatim>\<open>full_seqnum\<close> and
  \<open>R\<close> the packet stamped with it.
\<close>

lemma insert_cases [consumes 3, case_names far old push stop go]:
  assumes run: "ReliableReceivedPacketBuffer_insert lib sa pp rpkt b e = Inr (b', e', evs)"
    and F: "F = compute_full_seqnum (next_incoming_seqnum b) (reliable_seqnum rpkt)"
    and R: "R = rpkt\<lparr>reliable_full_seqnum := F\<rparr>"
    and far: "next_incoming_seqnum b + MAX_RELIABLE_WINDOW_SIZE < F \<Longrightarrow>
        b' = b \<Longrightarrow> e' = e \<Longrightarrow> evs = [] \<Longrightarrow> P"
    and old: "\<not> next_incoming_seqnum b + MAX_RELIABLE_WINDOW_SIZE < F \<Longrightarrow>
        F < next_incoming_seqnum b \<Longrightarrow>
        b' = b \<Longrightarrow> e' = sa R e \<Longrightarrow> evs = [SendAck R] \<Longrightarrow> P"
    and push: "\<not> next_incoming_seqnum b + MAX_RELIABLE_WINDOW_SIZE < F \<Longrightarrow>
        next_incoming_seqnum b < F \<Longrightarrow>
        b' = b\<lparr>m_queue := queue_push lib R (m_queue b)\<rparr> \<Longrightarrow> e' = sa R e \<Longrightarrow>
        evs = [SendAck R] \<Longrightarrow> P"
    and stop: "\<not> next_incoming_seqnum b + MAX_RELIABLE_WINDOW_SIZE < F \<Longrightarrow>
        F = next_incoming_seqnum b \<Longrightarrow> pp R (sa R e) = (False, e') \<Longrightarrow>
        b' = b\<lparr>next_incoming_seqnum := next_incoming_seqnum b + 1\<rparr> \<Longrightarrow>
        evs = [SendAck R, ProcessPacket R False] \<Longrightarrow> P"
    and go: "\<And>e2 evs'. \<not> next_incoming_seqnum b + MAX_RELIABLE_WINDOW_SIZE < F \<Longrightarrow>
        F = next_incoming_seqnum b \<Longrightarrow> pp R (sa R e) = (True, e2) \<Longrightarrow>
        flush lib pp (b\<lparr>next_incoming_seqnum := next_incoming_seqnum b + 1\<rparr>) e2
          = (b', e', evs') \<Longrightarrow>
        evs = SendAck R # ProcessPacket R True # evs' \<Longrightarrow> P"
  shows P
proof -
  let ?b1 = "b\<lparr>next_incoming_seqnum := next_incoming_seqnum b + 1\<rparr>"
  have rel: "is_reliable rpkt"
    using run by (cases "is_reliable rpkt") (simp_all add: insert_not_reliable)
  show ?thesis
  proof (cases "next_incoming_seqnum b + MAX_RELIABLE_WINDOW_SIZE < F")
    case True
    from run[unfolded insert_far[OF rel True[unfolded F]]]
    have "b' = b" "e' = e" "evs = []" by auto
    with True show ?thesis by (rule far)
  next
    case nfar: False
    note nfar' = nfar[unfolded F]
    consider (o) "F < next_incoming_seqnum b" | (e) "F = next_incoming_seqnum b"
      | (n) "next_incoming_seqnum b < F"
      by (metis not_less_iff_gr_or_eq)
    then show ?thesis
    proof cases
      case o
      from run[unfolded insert_old[OF rel nfar' o[unfolded F] R[unfolded F]]]
      have "b' = b" "e' = sa R e" "evs = [SendAck R]" by auto
      with nfar o show ?thesis by (rule old)
    next
      case n
      from run[unfolded insert_push[OF rel nfar' n[unfolded F] R[unfolded F]]]
      have "b' = b\<lparr>m_queue := queue_push lib R (m_queue b)\<rparr>" "e' = sa R e"
        "evs = [SendAck R]" by auto
      with nfar n show ?thesis by (rule push)
    next
      case e
      obtain c e2 where pp: "pp R (sa R e) = (c, e2)" by (cases "pp R (sa R e)")
      show ?thesis
      proof (cases c)
        case False
        with pp have pf: "pp R (sa R e) = (False, e2)" by simp
        from run[unfolded insert_stop[where lib=lib and sa=sa and pp=pp and e=e,
              OF rel nfar' e[unfolded F] R[unfolded F] pf]]
        have r: "b' = ?b1" "e' = e2" "evs = [SendAck R, ProcessPacket R False]" by auto
        from pf r(2) have "pp R (sa R e) = (False, e')" by simp
        with nfar e show ?thesis using r(1,3) by (rule stop)
      next
        case True
        with pp have pt: "pp R (sa R e) = (True, e2)" by simp
        obtain b2 e3 evs' where fl: "flush lib pp ?b1 e2 = (b2, e3, evs')"
          by (cases "flush lib pp ?b1 e2")
        from run[unfolded insert_go[where lib=lib and sa=sa and pp=pp and e=e,
              OF rel nfar' e[unfolded F] R[unfolded F] pt fl]]
        have r: "b' = b2" "e' = e3" "evs = SendAck R # ProcessPacket R True # evs'" by auto
        from fl r(1,2) have "flush lib pp ?b1 e2 = (b', e', evs')" by simp
        with nfar e pt show ?thesis using r(3) by (rule go)
      qed
    qed
  qed
qed



lemma insert_deliveries:
  assumes "ReliableReceivedPacketBuffer_insert lib sa pp rpkt b e = Inr (b', e', evs)"
  shows "map reliable_full_seqnum (deliveries evs)
           = consecutive (next_incoming_seqnum b) (length (deliveries evs)) \<and>
         next_incoming_seqnum b' = next_incoming_seqnum b + of_nat (length (deliveries evs))"
  using assms refl refl
proof (cases rule: insert_cases)
  case (go e2 evs')
  from flush_deliveries[OF go(4)] go(2,5) show ?thesis by (simp add: consecutive_Suc)
qed (simp_all add: consecutive_0 consecutive_Suc)

lemma insert_acks:
  assumes "ReliableReceivedPacketBuffer_insert lib sa pp rpkt b e = Inr (b', e', evs)"
  shows "acks evs =
     (if next_incoming_seqnum b + MAX_RELIABLE_WINDOW_SIZE
           < compute_full_seqnum (next_incoming_seqnum b) (reliable_seqnum rpkt)
      then []
      else [rpkt\<lparr>reliable_full_seqnum :=
                compute_full_seqnum (next_incoming_seqnum b) (reliable_seqnum rpkt)\<rparr>])"
  using assms refl refl
proof (cases rule: insert_cases)
  case (go e2 evs')
  from flush_acks[OF go(4)] go(1,5) show ?thesis by simp
qed simp_all

text \<open>
  The branch of \<^verbatim>\<open>insert\<close> that drops a packet unacknowledged (the source asks
  \<^verbatim>\<open>Will this ever actually be true?\<close>) is taken only while \<^verbatim>\<open>next_incoming_seqnum\<close> is
  below 32767, or where the 64-bit bound wraps around.
\<close>

lemma diff_mod_sum:
  fixes x y M :: nat
  assumes "x < M" "y < M" "x \<noteq> y"
  shows "(x + M - y) mod M + (y + M - x) mod M = M"
proof (cases "x < y")
  case True
  then have "(y + M - x) mod M = (y + M - x - M) mod M" by (simp add: le_mod_geq)
  also have "\<dots> = y - x" using assms True by simp
  finally have "(y + M - x) mod M = y - x" .
  moreover have "(x + M - y) mod M = x + M - y" using assms True by simp
  ultimately show ?thesis using assms True by simp
next
  case False
  then have lt: "y < x" using assms by simp
  then have "(x + M - y) mod M = (x + M - y - M) mod M" by (simp add: le_mod_geq)
  also have "\<dots> = x - y" using assms lt by simp
  finally have "(x + M - y) mod M = x - y" .
  moreover have "(y + M - x) mod M = y + M - x" using assms lt by simp
  ultimately show ?thesis using assms lt by simp
qed

lemma far_future_only_early:
  assumes "32767 \<le> unat base" and "unat base + 32768 < 2 ^ 64"
  shows "compute_full_seqnum base s \<le> base + MAX_RELIABLE_WINDOW_SIZE"
proof -
  define bm where "bm = unat base mod 65536"
  define f where "f = (unat s + 65536 - bm) mod 65536"
  define bw where "bw = (bm + 65536 - unat s) mod 65536"
  have top: "unat (base + MAX_RELIABLE_WINDOW_SIZE) = unat base + 32768"
    using assms(2) by (simp add: MAX_RELIABLE_WINDOW_SIZE_def unat_word_ariths)
  have u: "unat (compute_full_seqnum base s) =
      (if f \<le> 32768 \<or> bw > unat base then (unat base + f) mod 2 ^ 64 else unat base - bw)"
    by (simp add: cfs_unat Let_def f_def bw_def bm_def)
  have "unat (compute_full_seqnum base s) \<le> unat base + 32768"
  proof (cases "f \<le> 32768")
    case True
    then have "unat base + f < 2 ^ 64" using assms(2) by simp
    then have "(unat base + f) mod 2 ^ 64 = unat base + f" by simp
    then show ?thesis using True u by simp
  next
    case False
    have s: "unat s < 65536" using unsigned_less[of s] by simp
    have m: "bm < 65536" by (simp add: bm_def)
    have "unat s \<noteq> bm"
    proof
      assume "unat s = bm"
      then have "f = 0" by (simp add: f_def)
      with False show False by simp
    qed
    from diff_mod_sum[OF s m this] have "f + bw = 65536" by (simp add: f_def bw_def)
    then have "bw \<le> unat base" using False assms(1) by simp
    then show ?thesis using False u by simp
  qed
  then show ?thesis using top by (simp add: word_le_nat_alt)
qed

text \<open>
  Claim C3. Let \<^verbatim>\<open>insert\<close> be called with a reliable packet, let \<open>full_seqnum\<close> be the
  sequence number it computes and \<open>rpkt'\<close> the packet stamped with it.

  If \<open>full_seqnum \<le> next_incoming_seqnum + MAX_RELIABLE_WINDOW_SIZE\<close> (in the code's 64-bit
  arithmetic) the call returns, its first action is \<^verbatim>\<open>sendAck(rpkt')\<close>, no other
  \<^verbatim>\<open>sendAck\<close> follows, and the environment it leaves is the one that results from invoking
  the callbacks as recorded, starting with that \<^verbatim>\<open>sendAck\<close>. In detail: a packet below
  \<^verbatim>\<open>next_incoming_seqnum\<close> (a duplicate) is acknowledged and nothing else happens; a packet
  above it is acknowledged and queued; the expected packet is acknowledged and then handed
  to \<^verbatim>\<open>processPacket\<close>.

  If \<open>full_seqnum\<close> exceeds the bound, the call acknowledges nothing, delivers nothing and
  leaves the buffer and the environment as they were.
\<close>

theorem C3_ack_iff_in_window:
  assumes "is_reliable rpkt"
  shows "let next = next_incoming_seqnum b;
             full_seqnum = compute_full_seqnum next (reliable_seqnum rpkt);
             rpkt' = rpkt\<lparr>reliable_full_seqnum := full_seqnum\<rparr>;
             result = ReliableReceivedPacketBuffer_insert lib sendAck processPacket rpkt b e
         in (full_seqnum \<le> next + MAX_RELIABLE_WINDOW_SIZE \<longrightarrow>
               (\<exists>b' e' rest. result = Inr (b', e', SendAck rpkt' # rest) \<and> acks rest = [] \<and>
                  callbacks_applied sendAck processPacket rest (sendAck rpkt' e) e')) \<and>
            (full_seqnum \<le> next + MAX_RELIABLE_WINDOW_SIZE \<and> full_seqnum < next \<longrightarrow>
               result = Inr (b, sendAck rpkt' e, [SendAck rpkt'])) \<and>
            (full_seqnum \<le> next + MAX_RELIABLE_WINDOW_SIZE \<and> next < full_seqnum \<longrightarrow>
               result = Inr (b\<lparr>m_queue := queue_push lib rpkt' (m_queue b)\<rparr>,
                             sendAck rpkt' e, [SendAck rpkt'])) \<and>
            (full_seqnum \<le> next + MAX_RELIABLE_WINDOW_SIZE \<and> full_seqnum = next \<longrightarrow>
               (\<exists>b' e' rest. result =
                  Inr (b', e', SendAck rpkt' #
                         ProcessPacket rpkt' (fst (processPacket rpkt' (sendAck rpkt' e))) # rest))) \<and>
            (full_seqnum > next + MAX_RELIABLE_WINDOW_SIZE \<longrightarrow> result = Inr (b, e, []))"
proof -
  define F where "F = compute_full_seqnum (next_incoming_seqnum b) (reliable_seqnum rpkt)"
  define R where "R = rpkt\<lparr>reliable_full_seqnum := F\<rparr>"
  let ?res = "ReliableReceivedPacketBuffer_insert lib sendAck processPacket rpkt b e"
  let ?b1 = "b\<lparr>next_incoming_seqnum := next_incoming_seqnum b + 1\<rparr>"
  note R' = R_def[unfolded F_def]
  have far: "?res = Inr (b, e, [])"
    if "next_incoming_seqnum b + MAX_RELIABLE_WINDOW_SIZE < F"
    using assms that unfolding F_def by (rule insert_far)
  have old: "?res = Inr (b, sendAck R e, [SendAck R])"
    if "\<not> next_incoming_seqnum b + MAX_RELIABLE_WINDOW_SIZE < F" "F < next_incoming_seqnum b"
    using assms that R' unfolding F_def by (rule insert_old)
  have new: "?res = Inr (b\<lparr>m_queue := queue_push lib R (m_queue b)\<rparr>, sendAck R e, [SendAck R])"
    if "\<not> next_incoming_seqnum b + MAX_RELIABLE_WINDOW_SIZE < F" "next_incoming_seqnum b < F"
    using assms that R' unfolding F_def by (rule insert_push)
  have eq: "\<exists>b' e' rest. ?res = Inr (b', e', SendAck R #
                ProcessPacket R (fst (processPacket R (sendAck R e))) # rest) \<and>
              acks rest = [] \<and>
              callbacks_applied sendAck processPacket rest (snd (processPacket R (sendAck R e))) e'"
    if nfar: "\<not> next_incoming_seqnum b + MAX_RELIABLE_WINDOW_SIZE < F"
      and e: "F = next_incoming_seqnum b"
  proof -
    obtain c e2 where pp: "processPacket R (sendAck R e) = (c, e2)"
      by (cases "processPacket R (sendAck R e)")
    show ?thesis
    proof (cases c)
      case False
      with pp have pf: "processPacket R (sendAck R e) = (False, e2)" by simp
      have "?res = Inr (?b1, e2, [SendAck R, ProcessPacket R False])"
        using assms nfar[unfolded F_def] e[unfolded F_def] R' pf by (rule insert_stop)
      then show ?thesis using pf by simp
    next
      case True
      with pp have pt: "processPacket R (sendAck R e) = (True, e2)" by simp
      obtain b2 e3 evs' where fl: "flush lib processPacket ?b1 e2 = (b2, e3, evs')"
        by (cases "flush lib processPacket ?b1 e2")
      have "?res = Inr (b2, e3, SendAck R # ProcessPacket R True # evs')"
        using assms nfar[unfolded F_def] e[unfolded F_def] R' pt fl by (rule insert_go)
      then show ?thesis
        using pt flush_acks[OF fl] flush_applied[OF fl, of sendAck] by simp
    qed
  qed
  have window: "\<exists>b' e' rest. ?res = Inr (b', e', SendAck R # rest) \<and> acks rest = [] \<and>
                  callbacks_applied sendAck processPacket rest (sendAck R e) e'"
    if nfar: "\<not> next_incoming_seqnum b + MAX_RELIABLE_WINDOW_SIZE < F"
  proof -
    consider (o) "F < next_incoming_seqnum b" | (e) "F = next_incoming_seqnum b"
      | (n) "next_incoming_seqnum b < F"
      by (metis not_less_iff_gr_or_eq)
    then show ?thesis
    proof cases
      case o
      from old[OF nfar o] show ?thesis by simp
    next
      case n
      from new[OF nfar n] show ?thesis by simp
    next
      case e
      from eq[OF nfar e] obtain b' e' rest where
        r: "?res = Inr (b', e', SendAck R #
                ProcessPacket R (fst (processPacket R (sendAck R e))) # rest)"
        and a: "acks rest = []"
        and c: "callbacks_applied sendAck processPacket rest
                  (snd (processPacket R (sendAck R e))) e'"
        by blast
      show ?thesis
        by (intro exI[of _ b'] exI[of _ e']
              exI[of _ "ProcessPacket R (fst (processPacket R (sendAck R e))) # rest"])
           (simp add: r a c)
    qed
  qed
  show ?thesis
    unfolding Let_def F_def[symmetric] R_def[symmetric]
    using far old new eq window by (auto simp: not_less)
qed

theorem C3_ack_iff_in_window_witness:
  "is_reliable (reliable_packet 65499) \<and>
   ReliableReceivedPacketBuffer_insert earliest_first count_ack count_process
       (reliable_packet 65499) (new_buffer SEQNUM_INITIAL) (0, 0)
     = Inr (new_buffer SEQNUM_INITIAL, (1, 0), [SendAck (stamped 65499 65499)]) \<and>
   ReliableReceivedPacketBuffer_insert earliest_first count_ack count_process
       (reliable_packet 65502) (new_buffer SEQNUM_INITIAL) (0, 0)
     = Inr (\<lparr>next_incoming_seqnum = 65500, m_queue = [stamped 65502 65502]\<rparr>, (1, 0),
            [SendAck (stamped 65502 65502)]) \<and>
   ReliableReceivedPacketBuffer_insert earliest_first count_ack count_process
       (reliable_packet 65500)
       \<lparr>next_incoming_seqnum = 65500, m_queue = [stamped 65501 65501]\<rparr> (0, 0)
     = Inr (new_buffer 65502, (1, 2),
            [SendAck (stamped 65500 65500), ProcessPacket (stamped 65500 65500) True,
             ProcessPacket (stamped 65501 65501) True]) \<and>
   ReliableReceivedPacketBuffer_insert earliest_first count_ack count_process
       (reliable_packet 65535) (new_buffer 5) (0, 0)
     = Inr (new_buffer 5, (0, 0), [])"
proof -
  have c: "compute_full_seqnum 65500 65499 = 65499"
      "compute_full_seqnum 65500 65502 = 65502"
      "compute_full_seqnum 65500 65500 = 65500"
    using cfs_backward [of 1 65500] cfs_forward [of 65500 2] cfs_forward [of 65500 0]
    by simp_all
  have c5: "compute_full_seqnum 5 65535 = 65535"
    by (simp add: compute_full_seqnum_def)
  have run: "ReliableReceivedPacketBuffer_insert earliest_first count_ack count_process
       (reliable_packet 65500)
       \<lparr>next_incoming_seqnum = 65500, m_queue = [stamped 65501 65501]\<rparr> (0, 0)
     = Inr (new_buffer 65502, (1, 2),
            [SendAck (stamped 65500 65500), ProcessPacket (stamped 65500 65500) True,
             ProcessPacket (stamped 65501 65501) True])"
    by (simp add: flush.simps ReliableReceivedPacketBuffer_insert_def new_buffer_def
          stamped_def reliable_packet_def ReceivedPacket_make_def count_ack_def
          count_process_def c MAX_RELIABLE_WINDOW_SIZE_def earliest_first_simps Let_def)
  show ?thesis
    using C3_ack_iff_in_window [of "reliable_packet 65499" "new_buffer SEQNUM_INITIAL"
            earliest_first count_ack count_process "(0, 0)"]
          C3_ack_iff_in_window [of "reliable_packet 65502" "new_buffer SEQNUM_INITIAL"
            earliest_first count_ack count_process "(0, 0)"]
          C3_ack_iff_in_window [of "reliable_packet 65535" "new_buffer 5"
            earliest_first count_ack count_process "(0, 0)"]
          run
    by (simp add: Let_def reliable_packet_def new_buffer_def SEQNUM_INITIAL_def stamped_def
          ReceivedPacket_make_def c c5 MAX_RELIABLE_WINDOW_SIZE_def count_ack_def
          earliest_first_simps)
qed

subsection \<open>The queue invariant\<close>

lemma no_delivery_no_stop: "deliveries evs = [] \<Longrightarrow> \<not> stopped evs"
  by (induction evs rule: deliveries.induct) simp_all

lemma insert_residents:
  assumes run: "ReliableReceivedPacketBuffer_insert lib sa pp rpkt b e = Inr (b', e', evs)"
    and pre: "\<forall>p \<in> set (m_queue b). next_incoming_seqnum b \<le> reliable_full_seqnum p"
  shows "\<forall>p \<in> set (m_queue b'). next_incoming_seqnum b' \<le> reliable_full_seqnum p \<or>
           (stopped evs \<and> reliable_full_seqnum p + 1 = next_incoming_seqnum b')"
  using run refl refl
proof (cases rule: insert_cases)
  case far
  then show ?thesis using pre by simp
next
  case old
  then show ?thesis using pre by simp
next
  case push
  then show ?thesis using pre by (auto simp: queue_push_set)
next
  case stop
  show ?thesis
  proof
    fix p assume "p \<in> set (m_queue b')"
    then have "next_incoming_seqnum b \<le> reliable_full_seqnum p" using pre stop(4) by simp
    then consider "next_incoming_seqnum b = reliable_full_seqnum p"
      | "next_incoming_seqnum b < reliable_full_seqnum p" by fastforce
    then show "next_incoming_seqnum b' \<le> reliable_full_seqnum p \<or>
        (stopped evs \<and> reliable_full_seqnum p + 1 = next_incoming_seqnum b')"
    proof cases
      case 1
      then show ?thesis using stop(4,5) by simp
    next
      case 2
      then have "next_incoming_seqnum b + 1 \<le> reliable_full_seqnum p" by (rule inc_le)
      then show ?thesis using stop(4) by simp
    qed
  qed
next
  case (go e2 evs')
  from flush_residents[OF go(4)] go(5) show ?thesis by simp
qed

lemma insert_residents_strict:
  assumes run: "ReliableReceivedPacketBuffer_insert lib sa pp rpkt b e = Inr (b', e', evs)"
    and pre: "\<forall>p \<in> set (m_queue b). next_incoming_seqnum b < reliable_full_seqnum p"
  shows "(\<not> stopped evs \<longrightarrow>
            (\<forall>p \<in> set (m_queue b'). next_incoming_seqnum b' < reliable_full_seqnum p)) \<and>
         (length (deliveries evs) \<le> 1 \<longrightarrow>
            (\<forall>p \<in> set (m_queue b'). next_incoming_seqnum b' \<le> reliable_full_seqnum p))"
  using run refl refl
proof (cases rule: insert_cases)
  case far
  then show ?thesis using pre by (auto intro: less_imp_le)
next
  case old
  then show ?thesis using pre by (auto intro: less_imp_le)
next
  case push
  then show ?thesis using pre by (auto simp: queue_push_set intro: less_imp_le)
next
  case stop
  have "next_incoming_seqnum b + 1 \<le> reliable_full_seqnum p" if "p \<in> set (m_queue b)" for p
    using pre that by (intro inc_le) simp
  then show ?thesis using stop(4,5) by simp
next
  case (go e2 evs')
  have 1: "\<forall>p \<in> set (m_queue b'). next_incoming_seqnum b' < reliable_full_seqnum p"
    if "\<not> stopped evs'"
    using flush_queue_above[OF go(4) that] .
  have "\<not> stopped evs'" if "length (deliveries evs) \<le> 1"
    using that go(5) by (intro no_delivery_no_stop) simp
  with 1 show ?thesis using go(5) by (auto intro: less_imp_le)
qed

text \<open>
  Claim C9 as stated fails when \<^verbatim>\<open>processPacket\<close> answers \<^emph>\<open>stop\<close> inside \<^verbatim>\<open>flush\<close> while a
  duplicate of the packet just delivered is still queued. With
  \<^verbatim>\<open>next_incoming_seqnum = 65500\<close>, the arrivals 65501, 65501, 65500 and a callback that
  stops at 65501, the last \<^verbatim>\<open>insert\<close> returns with \<^verbatim>\<open>next_incoming_seqnum = 65502\<close> and the
  second copy of 65501 still in the queue. (The two queued copies are equal, so the
  library's choice between them makes no difference; the counters in the environment show
  three acknowledgements and two deliveries.)
\<close>

theorem C9_counterexample:
  "insert_all earliest_first count_ack (count_process_stop_at 65501)
     [reliable_packet 65501, reliable_packet 65501, reliable_packet 65500]
     (new_buffer SEQNUM_INITIAL) (0, 0)
   = Inr (\<lparr>next_incoming_seqnum = 65502, m_queue = [stamped 65501 65501]\<rparr>, (3, 2),
          [SendAck (stamped 65501 65501), SendAck (stamped 65501 65501),
           SendAck (stamped 65500 65500), ProcessPacket (stamped 65500 65500) True,
           ProcessPacket (stamped 65501 65501) False]) \<and>
   reliable_full_seqnum (stamped 65501 65501) < (65502 :: u64)"
  by (simp add: flush.simps ReliableReceivedPacketBuffer_insert_def new_buffer_def
        stamped_def reliable_packet_def ReceivedPacket_make_def SEQNUM_INITIAL_def
        count_ack_def count_process_stop_at_def compute_full_seqnum_def
        MAX_RELIABLE_WINDOW_SIZE_def earliest_first_simps Let_def)

text \<open>
  Claim C9, amended. Whenever \<^verbatim>\<open>insert\<close> returns, whatever \<^verbatim>\<open>processPacket\<close> answered and
  whatever the queue held:

  \<^item> the packets delivered by the call carry the consecutive sequence numbers from the old
    \<^verbatim>\<open>next_incoming_seqnum\<close> on, and \<^verbatim>\<open>next_incoming_seqnum\<close> has advanced by their number
    (a queued duplicate is dropped on extraction, never delivered).

  If before the call every queued packet had \<^verbatim>\<open>full_seqnum >= next_incoming_seqnum\<close>, then
  on return

  \<^item> every queued packet has \<^verbatim>\<open>full_seqnum >= next_incoming_seqnum\<close>, or some
    \<^verbatim>\<open>processPacket\<close> call of this \<^verbatim>\<open>insert\<close> answered \<^emph>\<open>stop\<close> and the packet is a copy of
    the one delivered last: \<^verbatim>\<open>full_seqnum + 1 = next_incoming_seqnum\<close>.

  If before the call every queued packet even had \<^verbatim>\<open>full_seqnum > next_incoming_seqnum\<close>
  (so it is in every state reached from a fresh buffer as long as no call answered
  \<^emph>\<open>stop\<close>), then on return

  \<^item> the same strict bound holds again if no call answered \<^emph>\<open>stop\<close>, and

  \<^item> the bound \<^verbatim>\<open>full_seqnum >= next_incoming_seqnum\<close> holds if the call delivered at most
    one packet, which includes a \<^emph>\<open>stop\<close> answered for the arriving packet itself.
\<close>

theorem C9_queue_invariant:
  assumes "ReliableReceivedPacketBuffer_insert lib sendAck processPacket rpkt b e
             = Inr (b', e', evs)"
  shows "map reliable_full_seqnum (deliveries evs)
           = consecutive (next_incoming_seqnum b) (length (deliveries evs)) \<and>
         next_incoming_seqnum b' = next_incoming_seqnum b + of_nat (length (deliveries evs)) \<and>
         ((\<forall>p \<in> set (m_queue b). next_incoming_seqnum b \<le> reliable_full_seqnum p) \<longrightarrow>
            (\<forall>p \<in> set (m_queue b'). next_incoming_seqnum b' \<le> reliable_full_seqnum p \<or>
               (stopped evs \<and> reliable_full_seqnum p + 1 = next_incoming_seqnum b'))) \<and>
         ((\<forall>p \<in> set (m_queue b). next_incoming_seqnum b < reliable_full_seqnum p) \<longrightarrow>
            (\<not> stopped evs \<longrightarrow>
               (\<forall>p \<in> set (m_queue b'). next_incoming_seqnum b' < reliable_full_seqnum p)) \<and>
            (length (deliveries evs) \<le> 1 \<longrightarrow>
               (\<forall>p \<in> set (m_queue b'). next_incoming_seqnum b' \<le> reliable_full_seqnum p)))"
  using insert_deliveries[OF assms] insert_residents[OF assms]
    insert_residents_strict[OF assms]
  by blast

theorem C9_queue_invariant_witness:
  "ReliableReceivedPacketBuffer_insert latest_first count_ack count_process
       (reliable_packet 65500)
       \<lparr>next_incoming_seqnum = 65500,
        m_queue = [stamped 65501 65501, stamped 65501 65501, stamped 65503 65503]\<rparr> (0, 0)
     = Inr (\<lparr>next_incoming_seqnum = 65502, m_queue = [stamped 65503 65503]\<rparr>, (1, 2),
            [SendAck (stamped 65500 65500), ProcessPacket (stamped 65500 65500) True,
             ProcessPacket (stamped 65501 65501) True]) \<and>
   consecutive 65500 2 = [65500, 65501] \<and>
   (65502 :: u64) < reliable_full_seqnum (stamped 65503 65503) \<and>
   ReliableReceivedPacketBuffer_insert earliest_first count_ack (count_process_stop_at 65501)
       (reliable_packet 65500)
       \<lparr>next_incoming_seqnum = 65500,
        m_queue = [stamped 65501 65501, stamped 65501 65501]\<rparr> (0, 0)
     = Inr (\<lparr>next_incoming_seqnum = 65502, m_queue = [stamped 65501 65501]\<rparr>, (1, 2),
            [SendAck (stamped 65500 65500), ProcessPacket (stamped 65500 65500) True,
             ProcessPacket (stamped 65501 65501) False]) \<and>
   reliable_full_seqnum (stamped 65501 65501) + 1 = (65502 :: u64) \<and>
   ReliableReceivedPacketBuffer_insert earliest_first count_ack (count_process_stop_at 65500)
       (reliable_packet 65500)
       \<lparr>next_incoming_seqnum = 65500, m_queue = [stamped 65501 65501]\<rparr> (0, 0)
     = Inr (\<lparr>next_incoming_seqnum = 65501, m_queue = [stamped 65501 65501]\<rparr>, (1, 1),
            [SendAck (stamped 65500 65500), ProcessPacket (stamped 65500 65500) False]) \<and>
   (65501 :: u64) \<le> reliable_full_seqnum (stamped 65501 65501)"
proof -
  let ?b1 = "\<lparr>next_incoming_seqnum = 65500,
        m_queue = [stamped 65501 65501, stamped 65501 65501, stamped 65503 65503]\<rparr>"
  let ?b2 = "\<lparr>next_incoming_seqnum = 65500,
        m_queue = [stamped 65501 65501, stamped 65501 65501]\<rparr>"
  let ?b3 = "\<lparr>next_incoming_seqnum = 65500, m_queue = [stamped 65501 65501]\<rparr>"
  have c: "compute_full_seqnum 65500 65500 = 65500"
    using cfs_forward [of 65500 0] by simp
  have run1: "ReliableReceivedPacketBuffer_insert latest_first count_ack count_process
       (reliable_packet 65500) ?b1 (0, 0)
     = Inr (\<lparr>next_incoming_seqnum = 65502, m_queue = [stamped 65503 65503]\<rparr>, (1, 2),
            [SendAck (stamped 65500 65500), ProcessPacket (stamped 65500 65500) True,
             ProcessPacket (stamped 65501 65501) True])"
    by (simp add: flush.simps ReliableReceivedPacketBuffer_insert_def
        stamped_def reliable_packet_def ReceivedPacket_make_def count_ack_def
        count_process_def c MAX_RELIABLE_WINDOW_SIZE_def latest_first_simps Let_def)
  have run2: "ReliableReceivedPacketBuffer_insert earliest_first count_ack
       (count_process_stop_at 65501) (reliable_packet 65500) ?b2 (0, 0)
     = Inr (\<lparr>next_incoming_seqnum = 65502, m_queue = [stamped 65501 65501]\<rparr>, (1, 2),
            [SendAck (stamped 65500 65500), ProcessPacket (stamped 65500 65500) True,
             ProcessPacket (stamped 65501 65501) False])"
    by (simp add: flush.simps ReliableReceivedPacketBuffer_insert_def
        stamped_def reliable_packet_def ReceivedPacket_make_def count_ack_def
        count_process_stop_at_def c MAX_RELIABLE_WINDOW_SIZE_def earliest_first_simps Let_def)
  have run3: "ReliableReceivedPacketBuffer_insert earliest_first count_ack
       (count_process_stop_at 65500) (reliable_packet 65500) ?b3 (0, 0)
     = Inr (\<lparr>next_incoming_seqnum = 65501, m_queue = [stamped 65501 65501]\<rparr>, (1, 1),
            [SendAck (stamped 65500 65500), ProcessPacket (stamped 65500 65500) False])"
    by (simp add: flush.simps ReliableReceivedPacketBuffer_insert_def
        stamped_def reliable_packet_def ReceivedPacket_make_def count_ack_def
        count_process_stop_at_def c MAX_RELIABLE_WINDOW_SIZE_def earliest_first_simps Let_def)
  have cons: "consecutive 65500 2 = [65500, 65501]"
    by (simp add: consecutive_def numeral_2_eq_2)
  have s: "reliable_full_seqnum (stamped x n) = n" for x n by (simp add: stamped_def)
  from C9_queue_invariant [OF run1] C9_queue_invariant [OF run2] C9_queue_invariant [OF run3]
    run1 run2 run3 cons
  show ?thesis by (simp add: s)
qed

subsection \<open>In-order delivery of a window of packets\<close>

















section \<open>Properties of the wire parser\<close>

subsection \<open>Big-endian fields\<close>

lemma u16_of_bytes_be16 [simp]: "u16_of_bytes (ucast (drop_bit 8 w)) (ucast w) = w"
  unfolding u16_of_bytes_def
  by (rule bit_word_eqI) (auto simp: bit_simps)

lemma u32_of_bytes_be32 [simp]:
  "u32_of_bytes (ucast (drop_bit 24 w)) (ucast (drop_bit 16 w)) (ucast (drop_bit 8 w)) (ucast w) = w"
  unfolding u32_of_bytes_def
proof (rule bit_word_eqI)
  fix n assume n: "n < LENGTH(32)"
  consider "n < 8" | "8 \<le> n" "n < 16" | "16 \<le> n" "n < 24" | "24 \<le> n" by linarith
  then show "bit (push_bit 24 (ucast (ucast (drop_bit 24 w) :: u8)) OR
            push_bit 16 (ucast (ucast (drop_bit 16 w) :: u8)) OR
            push_bit 8 (ucast (ucast (drop_bit 8 w) :: u8)) OR ucast (ucast w :: u8) :: u32) n = bit w n"
    using n by cases (auto simp: bit_simps)
qed

lemma bit8_high: "bit (b :: u8) (8 + n) = False" "bit (b :: u8) (16 + n) = False"
    "bit (b :: u8) (24 + n) = False"
  by (auto dest: bit_imp_le_length)

lemma be16_u16_of_bytes [simp]: "be16 (u16_of_bytes a b) = [a, b]"
  unfolding u16_of_bytes_def be16_def
  by (auto intro!: bit_word_eqI simp: bit_simps bit8_high)

lemma be32_u32_of_bytes [simp]: "be32 (u32_of_bytes a b c d) = [a, b, c, d]"
  unfolding u32_of_bytes_def be32_def
  by (auto intro!: bit_word_eqI simp: bit_simps bit8_high)


subsection \<open>Well-formed datagrams are parsed into their fields\<close>

lemmas reading_defs = and_then_def ret_def throw_def BinReader_read_def deref_def readU8_def
  readU16_def readU32_def getPosition_def BinReader_new_def

lemmas grammar_consts = CHANNEL_COUNT_def PACKET_TYPE_CONTROL_def PACKET_TYPE_ORIGINAL_def
  PACKET_TYPE_SPLIT_def PACKET_TYPE_RELIABLE_def PACKET_TYPE_MAX_def CONTROLTYPE_ACK_def
  CONTROLTYPE_SET_PEER_ID_def CONTROLTYPE_PING_def CONTROLTYPE_DISCO_def

lemmas parse_defs = parse_def parse_reading_def parse_typed_def parse_contents_def
  parse_by_type_def parse_control_def

lemma parse_serialize:
  assumes "well_formed dg" and "data p = serialize pid dg"
  shows "parse pid p = (Inr (parsed_fields pid dg p), [0..<length (datagram_header pid dg)])"
proof -
  obtain peer chan rel b where dg: "dg = Datagram peer chan rel b" by (cases dg)
  show ?thesis
  proof (cases b)
    case (Control c rest)
    show ?thesis
      using assms unfolding dg Control
      by (cases c; cases rel)
         (simp_all add: parse_defs reading_defs grammar_consts serialize_def be16_def be32_def
            parsed_fields_def Let_def upt_conv_Cons word_le_nat_alt word_less_nat_alt)
  next
    case (Original pl)
    show ?thesis
      using assms unfolding dg Original
      by (cases rel)
         (simp_all add: parse_defs reading_defs grammar_consts serialize_def be16_def be32_def
            parsed_fields_def Let_def upt_conv_Cons word_le_nat_alt word_less_nat_alt)
  next
    case (Split s cc cn pl)
    show ?thesis
      using assms unfolding dg Split
      by (cases rel)
         (simp_all add: parse_defs reading_defs grammar_consts serialize_def be16_def be32_def
            parsed_fields_def Let_def upt_conv_Cons word_le_nat_alt word_less_nat_alt)
  qed
qed


subsection \<open>Every accepted datagram is well-formed\<close>

lemma list_decomp: "n \<le> length d \<Longrightarrow> d = map ((!) d) [0..<n] @ drop n d"
proof -
  assume n: "n \<le> length d"
  have "take n d = map ((!) d) [0..<n]"
    by (rule nth_equalityI) (use n in auto)
  then show ?thesis by (metis append_take_drop_id)
qed

lemma readU8_at:
  "readU8 \<lparr>m_data = d, m_pos = k, m_accessed = acc\<rparr> =
     (if k < length d
      then (Inr (d ! k), \<lparr>m_data = d, m_pos = k + 1, m_accessed = acc @ [k]\<rparr>)
      else (Inl (UnexpectedEOF (length d)), \<lparr>m_data = d, m_pos = k, m_accessed = acc\<rparr>))"
  by (simp add: reading_defs not_less)

lemma readU16_at:
  "readU16 \<lparr>m_data = d, m_pos = k, m_accessed = acc\<rparr> =
     (if k + 2 \<le> length d
      then (Inr (u16_of_bytes (d ! k) (d ! (k + 1))),
            \<lparr>m_data = d, m_pos = k + 2, m_accessed = acc @ [k, k + 1]\<rparr>)
      else (Inl (UnexpectedEOF (length d)), \<lparr>m_data = d, m_pos = k, m_accessed = acc\<rparr>))"
  by (simp add: reading_defs not_less)

lemma readU32_at:
  "readU32 \<lparr>m_data = d, m_pos = k, m_accessed = acc\<rparr> =
     (if k + 4 \<le> length d
      then (Inr (u32_of_bytes (d ! k) (d ! (k + 1)) (d ! (k + 2)) (d ! (k + 3))),
            \<lparr>m_data = d, m_pos = k + 4, m_accessed = acc @ [k, k + 1, k + 2, k + 3]\<rparr>)
      else (Inl (UnexpectedEOF (length d)), \<lparr>m_data = d, m_pos = k, m_accessed = acc\<rparr>))"
  by (simp add: reading_defs not_less)

lemma and_then_at:
  "and_then f g r = (case f r of (Inl err, r1) \<Rightarrow> (Inl err, r1) | (Inr x, r1) \<Rightarrow> g x r1)"
  by (simp add: and_then_def)


lemma drop_decomp:
  assumes "k + n \<le> length d"
  shows "drop k d = map (\<lambda>i. d ! (k + i)) [0..<n] @ drop (k + n) d"
proof -
  have "n \<le> length (drop k d)" using assms by simp
  from list_decomp[OF this] have "drop k d = map ((!) (drop k d)) [0..<n] @ drop n (drop k d)" .
  moreover have "map ((!) (drop k d)) [0..<n] = map (\<lambda>i. d ! (k + i)) [0..<n]"
    using assms by (intro map_cong) auto
  ultimately show ?thesis by (simp add: add.commute)
qed

lemma parse_typed_sound:
  assumes run: "parse_typed t q \<lparr>m_data = d, m_pos = k, m_accessed = acc\<rparr> = (Inr p', r')"
    and q: "data q = d" and k: "k \<le> length d"
  shows "\<exists>b. body_ok b \<and> t # drop k d = body_header b @ body_payload b"
proof -
  consider (control) "t = 0" | (original) "t = 1" | (split) "t = 2" | (other) "t \<noteq> 0" "t \<noteq> 1" "t \<noteq> 2"
    by blast
  then show ?thesis
  proof cases
    case original
    have "drop k d \<noteq> []"
      using run q k unfolding original
      by (auto simp: parse_typed_def parse_by_type_def parse_contents_def grammar_consts
            and_then_at ret_def throw_def getPosition_def Let_def split: if_splits)
    then show ?thesis unfolding original
      by (intro exI[of _ "Original (drop k d)"]) simp
  next
    case other
    then show ?thesis using run
      by (auto simp: parse_typed_def parse_by_type_def grammar_consts
            and_then_at ret_def throw_def split: if_splits)
  next
    case split
    have f: "k + 6 \<le> length d \<and>
          u16_of_bytes (d ! (k + 4)) (d ! (k + 5)) < u16_of_bytes (d ! (k + 2)) (d ! (k + 3)) \<and>
          drop (k + 6) d \<noteq> []"
      using run q k unfolding split
      by (auto simp: parse_typed_def parse_by_type_def parse_contents_def grammar_consts
            and_then_at ret_def throw_def getPosition_def Let_def readU16_at not_le
            eval_nat_numeral split: if_splits)
    then have "drop k d = map (\<lambda>i. d ! (k + i)) [0..<6] @ drop (k + 6) d"
      by (intro drop_decomp) simp
    then have "drop k d = d ! k # d ! (k + 1) # d ! (k + 2) # d ! (k + 3) # d ! (k + 4)
         # d ! (k + 5) # drop (k + 6) d"
      by (simp add: upt_conv_Cons) (simp add: eval_nat_numeral)
    then show ?thesis using f unfolding split
      by (intro exI[of _ "Split (u16_of_bytes (d ! k) (d ! (k + 1)))
             (u16_of_bytes (d ! (k + 2)) (d ! (k + 3)))
             (u16_of_bytes (d ! (k + 4)) (d ! (k + 5))) (drop (k + 6) d)"]) simp
  next
    case control
    have k1: "k < length d" 
      using run q k unfolding control
      by (auto simp: parse_typed_def parse_by_type_def parse_control_def grammar_consts
            and_then_at ret_def throw_def readU8_at split: if_splits)
    then have d1: "drop k d = d ! k # drop (k + 1) d" by (simp add: Cons_nth_drop_Suc)
    consider (ack) "d ! k = 0" | (set_peer) "d ! k = 1" | (ping) "d ! k = 2" | (disco) "d ! k = 3"
      | (bad) "d ! k \<noteq> 0" "d ! k \<noteq> 1" "d ! k \<noteq> 2" "d ! k \<noteq> 3"
      by blast
    then show ?thesis
    proof cases
      case ack
      have f: "k + 1 + 2 \<le> length d"
        using run q k k1 ack unfolding control
        by (auto simp: parse_typed_def parse_by_type_def parse_control_def grammar_consts
              and_then_at ret_def throw_def readU8_at readU16_at split: if_splits)
      then have "drop (k + 1) d = map (\<lambda>i. d ! (k + 1 + i)) [0..<2] @ drop (k + 1 + 2) d"
        by (intro drop_decomp) simp
      then have "drop (k + 1) d = d ! (k + 1) # d ! (k + 2) # drop (k + 3) d"
        by (simp add: upt_conv_Cons add.assoc) (simp add: eval_nat_numeral)
      then show ?thesis using d1 ack unfolding control
        by (intro exI[of _ "Control (Ack (u16_of_bytes (d ! (k + 1)) (d ! (k + 2))))
               (drop (k + 3) d)"]) simp
    next
      case set_peer
      have f: "k + 1 + 2 \<le> length d"
        using run q k k1 set_peer unfolding control
        by (auto simp: parse_typed_def parse_by_type_def parse_control_def grammar_consts
              and_then_at ret_def throw_def readU8_at readU16_at split: if_splits)
      then have "drop (k + 1) d = map (\<lambda>i. d ! (k + 1 + i)) [0..<2] @ drop (k + 1 + 2) d"
        by (intro drop_decomp) simp
      then have "drop (k + 1) d = d ! (k + 1) # d ! (k + 2) # drop (k + 3) d"
        by (simp add: upt_conv_Cons add.assoc) (simp add: eval_nat_numeral)
      then show ?thesis using d1 set_peer unfolding control
        by (intro exI[of _ "Control (SetPeerId (u16_of_bytes (d ! (k + 1)) (d ! (k + 2))))
               (drop (k + 3) d)"]) simp
    next
      case ping
      then show ?thesis using d1 unfolding control
        by (intro exI[of _ "Control Ping (drop (k + 1) d)"]) simp
    next
      case disco
      then show ?thesis using d1 unfolding control
        by (intro exI[of _ "Control Disco (drop (k + 1) d)"]) simp
    next
      case bad
      then show ?thesis using run k1 unfolding control
        by (auto simp: parse_typed_def parse_by_type_def parse_control_def grammar_consts
              and_then_at ret_def throw_def readU8_at split: if_splits)
    qed
  qed
qed


lemma parse_sound:
  assumes "fst (parse pid p) = Inr p'"
  shows "\<exists>dg. well_formed dg \<and> data p = serialize pid dg"
proof -
  define d where "d = data p"
  obtain r' where run: "parse_reading pid p \<lparr>m_data = d, m_pos = 0, m_accessed = []\<rparr> = (Inr p', r')"
    using assms by (auto simp: parse_def BinReader_new_def d_def split: prod.splits)
  have h: "8 \<le> length d" "u32_of_bytes (d ! 0) (d ! 1) (d ! 2) (d ! 3) = pid" "d ! 6 < 3"
    using run
    by (auto simp: parse_reading_def and_then_at throw_def readU8_at readU16_at readU32_at
          grammar_consts not_le eval_nat_numeral split: if_splits)
  have "d = map ((!) d) [0..<8] @ drop 8 d" using h(1) by (rule list_decomp)
  then have d8: "d = d ! 0 # d ! 1 # d ! 2 # d ! 3 # d ! 4 # d ! 5 # d ! 6 # d ! 7 # drop 8 d"
    by (simp add: upt_conv_Cons) (simp add: eval_nat_numeral)
  show ?thesis
  proof (cases "d ! 7 = 3")
    case False
    let ?q = "p\<lparr>protocol_id := pid, peer_id := u16_of_bytes (d ! 4) (d ! 5), channelnum := d ! 6\<rparr>"
    have "\<exists>acc. parse_typed (d ! 7) ?q \<lparr>m_data = d, m_pos = 8, m_accessed = acc\<rparr> = (Inr p', r')"
      using run False h
      by (auto simp: parse_reading_def and_then_at throw_def readU8_at readU16_at readU32_at
          grammar_consts not_le eval_nat_numeral split: if_splits)
    then obtain acc where
      "parse_typed (d ! 7) ?q \<lparr>m_data = d, m_pos = 8, m_accessed = acc\<rparr> = (Inr p', r')" ..
    from parse_typed_sound[OF this _ h(1)]
    obtain b where b: "body_ok b" "d ! 7 # drop 8 d = body_header b @ body_payload b"
      by (auto simp: d_def)
    have "d = serialize pid (Datagram (u16_of_bytes (d ! 4) (d ! 5)) (d ! 6) None b)"
      using d8 b(2) h(2) by (simp add: serialize_def flip: h(2))
    then show ?thesis using b(1) h(3) unfolding d_def
      by (intro exI[of _ "Datagram (u16_of_bytes (d ! 4) (d ! 5)) (d ! 6) None b"])
         (simp add: grammar_consts d_def)
  next
    case True
    let ?q = "p\<lparr>protocol_id := pid, peer_id := u16_of_bytes (d ! 4) (d ! 5), channelnum := d ! 6,
                 is_reliable := True, reliable_seqnum := u16_of_bytes (d ! 8) (d ! 9)\<rparr>"
    have "11 \<le> length d \<and> (\<exists>acc. parse_typed (d ! 10) ?q
              \<lparr>m_data = d, m_pos = 11, m_accessed = acc\<rparr> = (Inr p', r'))"
      using run True h
      by (auto simp: parse_reading_def and_then_at throw_def readU8_at readU16_at readU32_at
          grammar_consts not_le eval_nat_numeral split: if_splits)
    then obtain acc where l: "11 \<le> length d" and
      "parse_typed (d ! 10) ?q \<lparr>m_data = d, m_pos = 11, m_accessed = acc\<rparr> = (Inr p', r')"
      by blast
    from parse_typed_sound[OF this(2) _ l]
    obtain b where b: "body_ok b" "d ! 10 # drop 11 d = body_header b @ body_payload b"
      by (auto simp: d_def)
    have "drop 8 d = map (\<lambda>i. d ! (8 + i)) [0..<3] @ drop (8 + 3) d"
      using l by (intro drop_decomp) simp
    then have "drop 8 d = d ! 8 # d ! 9 # d ! 10 # drop 11 d"
      by (simp add: upt_conv_Cons)
    with d8 have "d = d ! 0 # d ! 1 # d ! 2 # d ! 3 # d ! 4 # d ! 5 # d ! 6 # d ! 7
          # d ! 8 # d ! 9 # (d ! 10 # drop 11 d)" by simp
    then have "d = serialize pid (Datagram (u16_of_bytes (d ! 4) (d ! 5)) (d ! 6)
          (Some (u16_of_bytes (d ! 8) (d ! 9))) b)"
      unfolding b(2) using True by (simp add: serialize_def flip: h(2))
    then show ?thesis using b(1) h(3) unfolding d_def
      by (intro exI[of _ "Datagram (u16_of_bytes (d ! 4) (d ! 5)) (d ! 6)
          (Some (u16_of_bytes (d ! 8) (d ! 9))) b"])
         (simp add: grammar_consts d_def)
  qed
qed


subsection \<open>Truncated headers end in an unexpected-EOF error\<close>

lemma parse_truncated_shape:
  assumes "chan < CHANNEL_COUNT"
    and "n < length (datagram_header pid (Datagram peer chan rel b))"
    and "data p = take n (serialize pid (Datagram peer chan rel b))"
  shows "fst (parse pid p) = Inl (UnexpectedEOF n)"
proof -
  consider
      (c0) s rest where "rel = None" "b = Control (Ack s) rest"
    | (c1) s rest where "rel = None" "b = Control (SetPeerId s) rest"
    | (c2) rest where "rel = None" "b = Control Ping rest"
    | (c3) rest where "rel = None" "b = Control Disco rest"
    | (c4) pl where "rel = None" "b = Original pl"
    | (c5) s cc cn pl where "rel = None" "b = Split s cc cn pl"
    | (c6) rs s rest where "rel = Some rs" "b = Control (Ack s) rest"
    | (c7) rs s rest where "rel = Some rs" "b = Control (SetPeerId s) rest"
    | (c8) rs rest where "rel = Some rs" "b = Control Ping rest"
    | (c9) rs rest where "rel = Some rs" "b = Control Disco rest"
    | (c10) rs pl where "rel = Some rs" "b = Original pl"
    | (c11) rs s cc cn pl where "rel = Some rs" "b = Split s cc cn pl"
    by (cases rel; cases "(b, p)" rule: body_fields.cases) auto
  then show ?thesis
  proof cases
    case c0
    have "n < 11" using assms(2) unfolding c0 by (simp add: be16_def be32_def)
    then show ?thesis using assms(1,3) unfolding c0 eval_nat_numeral
      by (elim less_SucE less_zeroE;
          simp add: parse_defs reading_defs grammar_consts serialize_def be16_def be32_def
            Let_def word_le_nat_alt word_less_nat_alt)
    next
    case c1
    have "n < 11" using assms(2) unfolding c1 by (simp add: be16_def be32_def)
    then show ?thesis using assms(1,3) unfolding c1 eval_nat_numeral
      by (elim less_SucE less_zeroE;
          simp add: parse_defs reading_defs grammar_consts serialize_def be16_def be32_def
            Let_def word_le_nat_alt word_less_nat_alt)
    next
    case c2
    have "n < 9" using assms(2) unfolding c2 by (simp add: be16_def be32_def)
    then show ?thesis using assms(1,3) unfolding c2 eval_nat_numeral
      by (elim less_SucE less_zeroE;
          simp add: parse_defs reading_defs grammar_consts serialize_def be16_def be32_def
            Let_def word_le_nat_alt word_less_nat_alt)
    next
    case c3
    have "n < 9" using assms(2) unfolding c3 by (simp add: be16_def be32_def)
    then show ?thesis using assms(1,3) unfolding c3 eval_nat_numeral
      by (elim less_SucE less_zeroE;
          simp add: parse_defs reading_defs grammar_consts serialize_def be16_def be32_def
            Let_def word_le_nat_alt word_less_nat_alt)
    next
    case c4
    have "n < 8" using assms(2) unfolding c4 by (simp add: be16_def be32_def)
    then show ?thesis using assms(1,3) unfolding c4 eval_nat_numeral
      by (elim less_SucE less_zeroE;
          simp add: parse_defs reading_defs grammar_consts serialize_def be16_def be32_def
            Let_def word_le_nat_alt word_less_nat_alt)
    next
    case c5
    have "n < 14" using assms(2) unfolding c5 by (simp add: be16_def be32_def)
    then show ?thesis using assms(1,3) unfolding c5 eval_nat_numeral
      by (elim less_SucE less_zeroE;
          simp add: parse_defs reading_defs grammar_consts serialize_def be16_def be32_def
            Let_def word_le_nat_alt word_less_nat_alt)
    next
    case c6
    have "n < 14" using assms(2) unfolding c6 by (simp add: be16_def be32_def)
    then show ?thesis using assms(1,3) unfolding c6 eval_nat_numeral
      by (elim less_SucE less_zeroE;
          simp add: parse_defs reading_defs grammar_consts serialize_def be16_def be32_def
            Let_def word_le_nat_alt word_less_nat_alt)
    next
    case c7
    have "n < 14" using assms(2) unfolding c7 by (simp add: be16_def be32_def)
    then show ?thesis using assms(1,3) unfolding c7 eval_nat_numeral
      by (elim less_SucE less_zeroE;
          simp add: parse_defs reading_defs grammar_consts serialize_def be16_def be32_def
            Let_def word_le_nat_alt word_less_nat_alt)
    next
    case c8
    have "n < 12" using assms(2) unfolding c8 by (simp add: be16_def be32_def)
    then show ?thesis using assms(1,3) unfolding c8 eval_nat_numeral
      by (elim less_SucE less_zeroE;
          simp add: parse_defs reading_defs grammar_consts serialize_def be16_def be32_def
            Let_def word_le_nat_alt word_less_nat_alt)
    next
    case c9
    have "n < 12" using assms(2) unfolding c9 by (simp add: be16_def be32_def)
    then show ?thesis using assms(1,3) unfolding c9 eval_nat_numeral
      by (elim less_SucE less_zeroE;
          simp add: parse_defs reading_defs grammar_consts serialize_def be16_def be32_def
            Let_def word_le_nat_alt word_less_nat_alt)
    next
    case c10
    have "n < 11" using assms(2) unfolding c10 by (simp add: be16_def be32_def)
    then show ?thesis using assms(1,3) unfolding c10 eval_nat_numeral
      by (elim less_SucE less_zeroE;
          simp add: parse_defs reading_defs grammar_consts serialize_def be16_def be32_def
            Let_def word_le_nat_alt word_less_nat_alt)
    next
    case c11
    have "n < 17" using assms(2) unfolding c11 by (simp add: be16_def be32_def)
    then show ?thesis using assms(1,3) unfolding c11 eval_nat_numeral
      by (elim less_SucE less_zeroE;
          simp add: parse_defs reading_defs grammar_consts serialize_def be16_def be32_def
            Let_def word_le_nat_alt word_less_nat_alt)
  qed
qed

lemma parse_truncated:
  assumes "well_formed dg" and "n < length (datagram_header pid dg)"
    and "data p = take n (serialize pid dg)"
  shows "fst (parse pid p) = Inl (UnexpectedEOF n)"
proof -
  obtain peer chan rel b where dg: "dg = Datagram peer chan rel b" by (cases dg)
  have "chan < CHANNEL_COUNT" using assms(1) unfolding dg by simp
  then show ?thesis using assms(2,3) unfolding dg by (rule parse_truncated_shape)
qed

subsection \<open>No read outside the buffer\<close>

lemma stays_within_throw: "stays_within (throw err)"
  by (simp add: stays_within_def throw_def)

lemma stays_within_ret: "stays_within (ret x)"
  by (simp add: stays_within_def ret_def)

lemma stays_within_getPosition: "stays_within getPosition"
  by (simp add: stays_within_def getPosition_def)

lemma stays_within_and_then:
  assumes "stays_within f" "\<And>x. stays_within (g x)"
  shows "stays_within (and_then f g)"
  unfolding stays_within_def
proof (intro allI)
  fix r
  obtain res r1 where f: "f r = (res, r1)" by (cases "f r")
  have 1: "m_data r1 = m_data r" "accesses_within r \<longrightarrow> accesses_within r1"
    using assms(1) f unfolding stays_within_def by (metis snd_conv)+
  show "m_data (snd (and_then f g r)) = m_data r \<and>
        (accesses_within r \<longrightarrow> accesses_within (snd (and_then f g r)))"
  proof (cases res)
    case (Inl err)
    then show ?thesis using f 1 by (simp add: and_then_def)
  next
    case (Inr x)
    have "m_data (snd (g x r1)) = m_data r1"
         "accesses_within r1 \<longrightarrow> accesses_within (snd (g x r1))"
      using assms(2)[of x] unfolding stays_within_def by blast+
    then show ?thesis using f 1 Inr by (simp add: and_then_def)
  qed
qed

lemma stays_within_if:
  "stays_within f \<Longrightarrow> stays_within g \<Longrightarrow> stays_within (if c then f else g)"
  by simp

lemma stays_within_readU8: "stays_within readU8"
  by (auto simp: stays_within_def accesses_within_def reading_defs)

lemma stays_within_readU16: "stays_within readU16"
  by (auto simp: stays_within_def accesses_within_def reading_defs)

lemma stays_within_readU32: "stays_within readU32"
  by (auto simp: stays_within_def accesses_within_def reading_defs)

lemmas stays_within_intros = stays_within_throw stays_within_ret stays_within_getPosition
  stays_within_and_then stays_within_if stays_within_readU8 stays_within_readU16
  stays_within_readU32

lemma stays_within_parse_control: "stays_within (parse_control p)"
  unfolding parse_control_def by (intro stays_within_intros)

lemma stays_within_parse_by_type: "stays_within (parse_by_type t p)"
  unfolding parse_by_type_def by (intro stays_within_intros stays_within_parse_control)

lemma stays_within_parse_contents: "stays_within (parse_contents x)"
  unfolding parse_contents_def by (cases x) (simp add: Let_def stays_within_intros)

lemma stays_within_parse_typed: "stays_within (parse_typed t p)"
  unfolding parse_typed_def
  by (intro stays_within_intros stays_within_parse_by_type stays_within_parse_contents)

lemma stays_within_parse_reading: "stays_within (parse_reading pid p)"
  unfolding parse_reading_def
  by (intro stays_within_intros stays_within_parse_typed)

lemma parse_accesses_within: "\<forall>i \<in> set (snd (parse pid p)). i < length (data p)"
proof -
  obtain res r where run: "parse_reading pid p (BinReader_new (data p)) = (res, r)"
    by (cases "parse_reading pid p (BinReader_new (data p))")
  have "accesses_within (BinReader_new (data p))"
    by (simp add: accesses_within_def BinReader_new_def)
  then have "accesses_within r" "m_data r = data p"
    using stays_within_parse_reading[of pid p] run unfolding stays_within_def
    by (metis snd_conv, metis snd_conv BinReader_new_def BinReader.select_convs(1))
  then show ?thesis using run by (simp add: parse_def accesses_within_def)
qed


subsection \<open>The residual payload\<close>

lemma payload_parsed_fields:
  assumes "data p = serialize pid dg"
  shows "payload (parsed_fields pid dg p) = datagram_payload dg"
proof -
  obtain peer chan rel b where dg: "dg = Datagram peer chan rel b" by (cases dg)
  have "data (parsed_fields pid dg p) = data p"
    unfolding dg parsed_fields_def
    by (cases rel; cases "(b, p)" rule: body_fields.cases) auto
  moreover have "contents (parsed_fields pid dg p) = length (datagram_header pid dg)"
    "contents_size (parsed_fields pid dg p) = length (datagram_payload dg)"
    unfolding dg parsed_fields_def by simp_all
  ultimately show ?thesis using assms by (simp add: payload_def serialize_def)
qed

subsection \<open>Exactly the buffers that end inside the header give unexpected-EOF\<close>

lemma pad_prefix:
  assumes "length xs \<le> n"
  shows "take (length xs) (map ((!) (xs @ replicate n z)) [0..<n]) = xs"
proof (rule nth_equalityI)
  show "length (take (length xs) (map ((!) (xs @ replicate n z)) [0..<n])) = length xs"
    using assms by simp
next
  fix i assume "i < length (take (length xs) (map ((!) (xs @ replicate n z)) [0..<n]))"
  then have i: "i < length xs" by simp
  then show "take (length xs) (map ((!) (xs @ replicate n z)) [0..<n]) ! i = xs ! i"
    using assms by (simp add: nth_append)
qed

lemma parse_short:
  assumes "length (data p) < 4"
  shows "fst (parse pid p) = Inl (UnexpectedEOF (length (data p)))"
  using assms
  by (simp add: parse_def parse_reading_def BinReader_new_def and_then_at readU32_at)

lemma parse_cut_short:
  assumes chan: "chan < CHANNEL_COUNT"
    and pid: "4 \<le> n \<longrightarrow> pid' = pid"
    and n: "n < length (datagram_header pid' (Datagram peer chan rel b))"
    and d: "data p = take n (datagram_header pid' (Datagram peer chan rel b))"
  shows "fst (parse pid p) = Inl (UnexpectedEOF n)"
proof (cases "4 \<le> n")
  case True
  then have e: "pid' = pid" using pid by simp
  have "data p = take n (serialize pid (Datagram peer chan rel b))"
    using d n unfolding e by (simp add: serialize_def del: datagram_header.simps)
  with chan n[unfolded e] show ?thesis by (rule parse_truncated_shape)
next
  case False
  then have "length (data p) = n" using d n by simp
  with False show ?thesis using parse_short[of p pid] by simp
qed

lemma parse_typed_eof:
  assumes run: "parse_typed t q \<lparr>m_data = d, m_pos = k, m_accessed = acc\<rparr>
                  = (Inl (UnexpectedEOF n), r')"
    and k: "k \<le> length d"
  shows "n = length d \<and>
         (\<exists>b. Suc (length d - k) < length (body_header b) \<and>
               t # drop k d = take (Suc (length d - k)) (body_header b))"
proof -
  consider (control) "t = 0" | (original) "t = 1" | (split) "t = 2" | (other) "t \<noteq> 0" "t \<noteq> 1" "t \<noteq> 2"
    by blast
  then show ?thesis
  proof cases
    case original
    then show ?thesis using run
      by (auto simp: parse_typed_def parse_by_type_def parse_contents_def grammar_consts
            and_then_at ret_def throw_def getPosition_def Let_def split: if_splits)
  next
    case other
    then show ?thesis using run
      by (auto simp: parse_typed_def parse_by_type_def grammar_consts
            and_then_at ret_def throw_def split: if_splits)
  next
    case split
    have f: "n = length d \<and> \<not> k + 6 \<le> length d"
      using run k unfolding split
      by (auto simp: parse_typed_def parse_by_type_def parse_contents_def grammar_consts
            and_then_at ret_def throw_def getPosition_def Let_def readU16_at not_le
            eval_nat_numeral split: if_splits)
    define x where "x = drop k d @ replicate 6 0"
    have len: "length (drop k d) \<le> 6" using f by (auto simp: not_le)
    have "take (length (drop k d)) (map ((!) x) [0..<6]) = drop k d"
      unfolding x_def using len by (rule pad_prefix)
    moreover have "map ((!) x) [0..<6] = [x ! 0, x ! 1, x ! 2, x ! 3, x ! 4, x ! 5]"
      by (simp add: upt_conv_Cons) (simp add: eval_nat_numeral)
    ultimately have pp: "take (length d - k) [x ! 0, x ! 1, x ! 2, x ! 3, x ! 4, x ! 5] = drop k d"
      by simp
    let ?b = "Split (u16_of_bytes (x ! 0) (x ! 1)) (u16_of_bytes (x ! 2) (x ! 3))
                (u16_of_bytes (x ! 4) (x ! 5)) []"
    have "Suc (length d - k) < length (body_header ?b)" using f by (auto simp: not_le be16_def)
    moreover have "t # drop k d = take (Suc (length d - k)) (body_header ?b)"
      unfolding split using pp by simp
    ultimately show ?thesis using f by blast
  next
    case control
    show ?thesis
    proof (cases "k < length d")
      case False
      then have kd: "k = length d" using k by simp
      have n: "n = length d"
        using run False unfolding control
        by (auto simp: parse_typed_def parse_by_type_def parse_control_def grammar_consts
              and_then_at ret_def throw_def readU8_at split: if_splits)
      have "Suc (length d - k) < length (body_header (Control Ping []))" using kd by simp
      moreover have "t # drop k d = take (Suc (length d - k)) (body_header (Control Ping []))"
        unfolding control using kd by simp
      ultimately show ?thesis using n by blast
    next
      case True
      then have d1: "drop k d = d ! k # drop (k + 1) d" by (simp add: Cons_nth_drop_Suc)
      have f: "n = length d \<and> (d ! k = 0 \<or> d ! k = 1) \<and> \<not> k + 3 \<le> length d"
        using run True unfolding control
        by (auto simp: parse_typed_def parse_by_type_def parse_control_def parse_contents_def
              grammar_consts and_then_at ret_def throw_def readU8_at readU16_at getPosition_def
              Let_def not_le eval_nat_numeral split: if_splits)
      define y where "y = drop (k + 1) d @ replicate 2 0"
      have len: "length (drop (k + 1) d) \<le> 2" using f by (auto simp: not_le)
      have "take (length (drop (k + 1) d)) (map ((!) y) [0..<2]) = drop (k + 1) d"
        unfolding y_def using len by (rule pad_prefix)
      moreover have "map ((!) y) [0..<2] = [y ! 0, y ! 1]"
        by (simp add: upt_conv_Cons)
      ultimately have pp: "take (length d - (k + 1)) [y ! 0, y ! 1] = drop (k + 1) d"
        by simp
      let ?c = "if d ! k = 0 then Ack (u16_of_bytes (y ! 0) (y ! 1))
                else SetPeerId (u16_of_bytes (y ! 0) (y ! 1))"
      have h: "body_header (Control ?c []) = [0, d ! k, y ! 0, y ! 1]" using f by auto
      have "Suc (length d - k) < length (body_header (Control ?c []))"
        unfolding h using f True by (auto simp: not_le)
      moreover have "Suc (length d - k) = Suc (Suc (length d - (k + 1)))" using True by simp
      then have "t # drop k d = take (Suc (length d - k)) (body_header (Control ?c []))"
        unfolding h control d1 using pp by simp
      ultimately show ?thesis using f by blast
    qed
  qed
qed

lemma parse_eof:
  assumes "fst (parse pid p) = Inl (UnexpectedEOF n)"
  shows "n = length (data p) \<and>
         (\<exists>pid' peer chan rel b. chan < CHANNEL_COUNT \<and> (4 \<le> n \<longrightarrow> pid' = pid) \<and>
            n < length (datagram_header pid' (Datagram peer chan rel b)) \<and>
            data p = take n (datagram_header pid' (Datagram peer chan rel b)))"
proof -
  define d where "d = data p"
  obtain r' where run: "parse_reading pid p \<lparr>m_data = d, m_pos = 0, m_accessed = []\<rparr>
                          = (Inl (UnexpectedEOF n), r')"
    using assms by (auto simp: parse_def BinReader_new_def d_def split: prod.splits)
  show ?thesis
  proof (cases "length d < 8")
    case True
    have f: "n = length d" "4 \<le> length d \<longrightarrow> u32_of_bytes (d ! 0) (d ! 1) (d ! 2) (d ! 3) = pid"
      "7 \<le> length d \<longrightarrow> d ! 6 < 3"
      using run True
      by (auto simp: parse_reading_def and_then_at throw_def readU8_at readU16_at readU32_at
            grammar_consts not_le eval_nat_numeral split: if_splits)
    define x where "x = d @ replicate 7 0"
    have len: "length d \<le> 7" using True by simp
    have "take (length d) (map ((!) x) [0..<7]) = d"
      unfolding x_def using len by (rule pad_prefix)
    moreover have "map ((!) x) [0..<7] = [x ! 0, x ! 1, x ! 2, x ! 3, x ! 4, x ! 5, x ! 6]"
      by (simp add: upt_conv_Cons) (simp add: eval_nat_numeral)
    ultimately have pp: "take (length d) [x ! 0, x ! 1, x ! 2, x ! 3, x ! 4, x ! 5, x ! 6] = d"
      by simp
    have xd: "x ! i = d ! i" if "i < length d" for i using that by (simp add: x_def nth_append)
    have x6: "x ! 6 = 0" if "length d < 7"
      using that by (simp add: x_def nth_append)
    let ?pid = "u32_of_bytes (x ! 0) (x ! 1) (x ! 2) (x ! 3)"
    let ?dg = "Datagram (u16_of_bytes (x ! 4) (x ! 5)) (x ! 6) None (Original [])"
    have h: "datagram_header ?pid ?dg = [x ! 0, x ! 1, x ! 2, x ! 3, x ! 4, x ! 5, x ! 6] @ [1]"
      by simp
    have "x ! 6 < CHANNEL_COUNT"
    proof (cases "7 \<le> length d")
      case True
      then have "x ! 6 = d ! 6" by (intro xd) linarith
      then show ?thesis using f(3) True by (simp add: grammar_consts)
    next
      case False
      then show ?thesis using x6 by (simp add: grammar_consts)
    qed
    moreover have "4 \<le> n \<longrightarrow> ?pid = pid"
    proof
      assume "4 \<le> n"
      then have l: "4 \<le> length d" using f(1) by simp
      have "x ! 0 = d ! 0" using l by (intro xd) linarith
      moreover have "x ! 1 = d ! 1" using l by (intro xd) linarith
      moreover have "x ! 2 = d ! 2" using l by (intro xd) linarith
      moreover have "x ! 3 = d ! 3" using l by (intro xd) linarith
      ultimately show "?pid = pid" using f(2) l by simp
    qed
    moreover have "n < length (datagram_header ?pid ?dg)" unfolding h using f(1) True by simp
    moreover have "data p = take n (datagram_header ?pid ?dg)"
      unfolding h f(1) using pp len by (simp add: d_def del: append.simps)
    ultimately show ?thesis using f(1) unfolding d_def by blast
  next
    case False
    then have l8: "8 \<le> length d" by simp
    have h: "u32_of_bytes (d ! 0) (d ! 1) (d ! 2) (d ! 3) = pid" "d ! 6 < 3"
      using run l8
      by (auto simp: parse_reading_def and_then_at throw_def readU8_at readU16_at readU32_at
            grammar_consts not_le eval_nat_numeral split: if_splits)
    have "d = map ((!) d) [0..<8] @ drop 8 d" using l8 by (rule list_decomp)
    then have d8: "d = d ! 0 # d ! 1 # d ! 2 # d ! 3 # d ! 4 # d ! 5 # d ! 6 # d ! 7 # drop 8 d"
      by (simp add: upt_conv_Cons) (simp add: eval_nat_numeral)
    have chan: "d ! 6 < CHANNEL_COUNT" using h(2) by (simp add: grammar_consts)
    let ?peer = "u16_of_bytes (d ! 4) (d ! 5)"
    show ?thesis
    proof (cases "d ! 7 = 3")
      case plain: False
      let ?q = "p\<lparr>protocol_id := pid, peer_id := ?peer, channelnum := d ! 6\<rparr>"
      have "\<exists>acc. parse_typed (d ! 7) ?q \<lparr>m_data = d, m_pos = 8, m_accessed = acc\<rparr>
              = (Inl (UnexpectedEOF n), r')"
        using run plain l8
        by (auto simp: parse_reading_def and_then_at throw_def readU8_at readU16_at readU32_at
            grammar_consts not_le eval_nat_numeral split: if_splits)
      then obtain acc where "parse_typed (d ! 7) ?q \<lparr>m_data = d, m_pos = 8, m_accessed = acc\<rparr>
              = (Inl (UnexpectedEOF n), r')" ..
      from parse_typed_eof[OF this l8]
      obtain b where n: "n = length d" and b: "Suc (length d - 8) < length (body_header b)"
        "d ! 7 # drop 8 d = take (Suc (length d - 8)) (body_header b)"
        by blast
      define pre where "pre = [d ! 0, d ! 1, d ! 2, d ! 3, d ! 4, d ! 5, d ! 6]"
      have lp: "length pre = 7" by (simp add: pre_def)
      have dp: "d = pre @ (d ! 7 # drop 8 d)" using d8 by (simp add: pre_def)
      have hd: "datagram_header pid (Datagram ?peer (d ! 6) None b) = pre @ body_header b"
        by (simp add: pre_def flip: h(1))
      have e: "length d - 7 = Suc (length d - 8)" using l8 by simp
      have "n < length (datagram_header pid (Datagram ?peer (d ! 6) None b))"
        unfolding hd n using b(1) l8 lp by simp
      moreover have "take n (datagram_header pid (Datagram ?peer (d ! 6) None b)) = d"
      proof -
        have "take (length d) (pre @ body_header b) = pre @ take (length d - 7) (body_header b)"
          using l8 lp by simp
        also have "\<dots> = pre @ (d ! 7 # drop 8 d)" unfolding e using b(2) by simp
        also have "\<dots> = d" using dp by simp
        finally show ?thesis unfolding hd n .
      qed
      ultimately show ?thesis using chan n unfolding d_def by metis
    next
      case rel: True
      show ?thesis
      proof (cases "length d < 11")
        case True
        have n: "n = length d"
          using run rel l8 True
          by (auto simp: parse_reading_def and_then_at throw_def readU8_at readU16_at readU32_at
              grammar_consts not_le eval_nat_numeral split: if_splits)
        define y where "y = drop 8 d @ replicate 2 0"
        have len: "length (drop 8 d) \<le> 2" using True by simp
        have "take (length (drop 8 d)) (map ((!) y) [0..<2]) = drop 8 d"
          unfolding y_def using len by (rule pad_prefix)
        moreover have "map ((!) y) [0..<2] = [y ! 0, y ! 1]"
          by (simp add: upt_conv_Cons)
        ultimately have pp: "take (length d - 8) [y ! 0, y ! 1] = drop 8 d" by simp
        let ?dg = "Datagram ?peer (d ! 6) (Some (u16_of_bytes (y ! 0) (y ! 1))) (Original [])"
        define pre where "pre = [d ! 0, d ! 1, d ! 2, d ! 3, d ! 4, d ! 5, d ! 6, d ! 7]"
        have lp: "length pre = 8" by (simp add: pre_def)
        have dp: "d = pre @ drop 8 d" using d8 by (simp add: pre_def)
        have hd: "datagram_header pid ?dg = pre @ ([y ! 0, y ! 1] @ [1])"
          using rel by (simp add: pre_def flip: h(1))
        have "n < length (datagram_header pid ?dg)" unfolding hd n using True lp by simp
        moreover have "take n (datagram_header pid ?dg) = d"
        proof -
          have "take (length d) (pre @ ([y ! 0, y ! 1] @ [1]))
                  = pre @ take (length d - 8) ([y ! 0, y ! 1] @ [1])"
            using l8 lp by simp
          also have "take (length d - 8) ([y ! 0, y ! 1] @ [1]) = take (length d - 8) [y ! 0, y ! 1]"
            using len by (simp del: append.simps)
          also have "pre @ take (length d - 8) [y ! 0, y ! 1] = d" using pp dp by simp
          finally show ?thesis unfolding hd n .
        qed
        ultimately show ?thesis using chan n unfolding d_def by metis
      next
        case False
        then have l11: "11 \<le> length d" by simp
        let ?q = "p\<lparr>protocol_id := pid, peer_id := ?peer, channelnum := d ! 6,
                     is_reliable := True, reliable_seqnum := u16_of_bytes (d ! 8) (d ! 9)\<rparr>"
        have "\<exists>acc. parse_typed (d ! 10) ?q \<lparr>m_data = d, m_pos = 11, m_accessed = acc\<rparr>
                = (Inl (UnexpectedEOF n), r')"
          using run rel l11
          by (auto simp: parse_reading_def and_then_at throw_def readU8_at readU16_at readU32_at
              grammar_consts not_le eval_nat_numeral split: if_splits)
        then obtain acc where
          "parse_typed (d ! 10) ?q \<lparr>m_data = d, m_pos = 11, m_accessed = acc\<rparr>
                = (Inl (UnexpectedEOF n), r')" ..
        from parse_typed_eof[OF this l11]
        obtain b where n: "n = length d" and b: "Suc (length d - 11) < length (body_header b)"
          "d ! 10 # drop 11 d = take (Suc (length d - 11)) (body_header b)"
          by blast
        have "drop 8 d = map (\<lambda>i. d ! (8 + i)) [0..<3] @ drop (8 + 3) d"
          using l11 by (intro drop_decomp) simp
        then have "drop 8 d = d ! 8 # d ! 9 # d ! 10 # drop 11 d"
          by (simp add: upt_conv_Cons)
        with d8 have d11: "d = d ! 0 # d ! 1 # d ! 2 # d ! 3 # d ! 4 # d ! 5 # d ! 6 # d ! 7 #
            d ! 8 # d ! 9 # d ! 10 # drop 11 d" by simp
        let ?dg = "Datagram ?peer (d ! 6) (Some (u16_of_bytes (d ! 8) (d ! 9))) b"
        define pre where
          "pre = [d ! 0, d ! 1, d ! 2, d ! 3, d ! 4, d ! 5, d ! 6, d ! 7, d ! 8, d ! 9]"
        have lp: "length pre = 10" by (simp add: pre_def)
        have dp: "d = pre @ (d ! 10 # drop 11 d)" using d11 by (simp add: pre_def)
        have hd: "datagram_header pid ?dg = pre @ body_header b"
          using rel by (simp add: pre_def flip: h(1))
        have e: "length d - 10 = Suc (length d - 11)" using l11 by simp
        have "n < length (datagram_header pid ?dg)"
          unfolding hd n using b(1) l11 lp by simp
        moreover have "take n (datagram_header pid ?dg) = d"
        proof -
          have "take (length d) (pre @ body_header b)
                  = pre @ take (length d - 10) (body_header b)"
            using l11 lp by simp
          also have "\<dots> = pre @ (d ! 10 # drop 11 d)" unfolding e using b(2) by simp
          also have "\<dots> = d" using dp by simp
          finally show ?thesis unfolding hd n .
        qed
        ultimately show ?thesis using chan n unfolding d_def by metis
      qed
    qed
  qed
qed

subsection \<open>The parser accepts exactly the grammar\<close>

text \<open>
  Claim C4. On every input buffer \<^verbatim>\<open>parse\<close> returns, either a packet or a \<^verbatim>\<open>ParseError\<close>
  (the function is total), and:

  \<^item> every byte it reads lies inside the buffer;

  \<^item> it succeeds exactly on the serialisations of the well-formed datagrams of the grammar
    (right protocol id, channel below \<^verbatim>\<open>CHANNEL_COUNT\<close>, a known type, no reliable envelope
    inside a reliable envelope, a known control type, \<^verbatim>\<open>chunk_num < chunk_count\<close>, a
    non-empty payload for ORIGINAL and SPLIT) and throws on everything else;

  \<^item> on a well-formed datagram the packet holds the fields of the datagram, and \<^verbatim>\<open>contents\<close>,
    \<^verbatim>\<open>contents_size\<close> delimit its residual payload;

  \<^item> the error is the unexpected-EOF error, carrying the length \<open>n\<close> of the buffer, exactly
    when the buffer ends inside a header: it is a proper prefix of the header of some
    datagram on a valid channel, under the configured protocol id as soon as the buffer
    holds the four bytes of the id. (Nothing is asked of \<^verbatim>\<open>chunk_num\<close> and \<^verbatim>\<open>chunk_count\<close>
    here: they are compared only after the last header field is read. So the one-byte
    buffer and a SPLIT header cut off after a zero \<^verbatim>\<open>chunk_count\<close> are covered.)

  \<^item> in particular a well-formed datagram cut off inside its header gives unexpected-EOF.
\<close>

theorem C4_parse_grammar:
  "(\<forall>i \<in> set (snd (parse pid p)). i < length (data p)) \<and>
   ((\<exists>p'. fst (parse pid p) = Inr p') \<longleftrightarrow>
      (\<exists>dg. well_formed dg \<and> data p = serialize pid dg)) \<and>
   (well_formed dg \<and> data p = serialize pid dg \<longrightarrow>
      fst (parse pid p) = Inr (parsed_fields pid dg p) \<and>
      payload (parsed_fields pid dg p) = datagram_payload dg) \<and>
   (fst (parse pid p) = Inl (UnexpectedEOF n) \<longleftrightarrow>
      n = length (data p) \<and>
      (\<exists>pid' peer chan rel b. chan < CHANNEL_COUNT \<and> (4 \<le> n \<longrightarrow> pid' = pid) \<and>
         n < length (datagram_header pid' (Datagram peer chan rel b)) \<and>
         data p = take n (datagram_header pid' (Datagram peer chan rel b)))) \<and>
   (well_formed dg' \<and> m < length (datagram_header pid dg') \<and>
      data p = take m (serialize pid dg') \<longrightarrow>
      fst (parse pid p) = Inl (UnexpectedEOF m))"
proof (intro conjI impI)
  show "\<forall>i \<in> set (snd (parse pid p)). i < length (data p)"
    by (rule parse_accesses_within)
next
  show "(\<exists>p'. fst (parse pid p) = Inr p') \<longleftrightarrow>
      (\<exists>dg. well_formed dg \<and> data p = serialize pid dg)"
  proof
    assume "\<exists>p'. fst (parse pid p) = Inr p'"
    then show "\<exists>dg. well_formed dg \<and> data p = serialize pid dg"
      using parse_sound by blast
  next
    assume "\<exists>dg. well_formed dg \<and> data p = serialize pid dg"
    then obtain dg where "well_formed dg" "data p = serialize pid dg" by blast
    from parse_serialize[OF this] show "\<exists>p'. fst (parse pid p) = Inr p'" by simp
  qed
next
  assume a: "well_formed dg \<and> data p = serialize pid dg"
  then show "fst (parse pid p) = Inr (parsed_fields pid dg p)"
    using parse_serialize[of dg p pid] by simp
  from a show "payload (parsed_fields pid dg p) = datagram_payload dg"
    by (simp add: payload_parsed_fields)
next
  show "fst (parse pid p) = Inl (UnexpectedEOF n) \<longleftrightarrow>
      n = length (data p) \<and>
      (\<exists>pid' peer chan rel b. chan < CHANNEL_COUNT \<and> (4 \<le> n \<longrightarrow> pid' = pid) \<and>
         n < length (datagram_header pid' (Datagram peer chan rel b)) \<and>
         data p = take n (datagram_header pid' (Datagram peer chan rel b)))"
  proof
    assume "fst (parse pid p) = Inl (UnexpectedEOF n)"
    then show "n = length (data p) \<and>
      (\<exists>pid' peer chan rel b. chan < CHANNEL_COUNT \<and> (4 \<le> n \<longrightarrow> pid' = pid) \<and>
         n < length (datagram_header pid' (Datagram peer chan rel b)) \<and>
         data p = take n (datagram_header pid' (Datagram peer chan rel b)))"
      by (rule parse_eof)
  next
    assume "n = length (data p) \<and>
      (\<exists>pid' peer chan rel b. chan < CHANNEL_COUNT \<and> (4 \<le> n \<longrightarrow> pid' = pid) \<and>
         n < length (datagram_header pid' (Datagram peer chan rel b)) \<and>
         data p = take n (datagram_header pid' (Datagram peer chan rel b)))"
    then obtain pid' peer chan rel b where "chan < CHANNEL_COUNT" "4 \<le> n \<longrightarrow> pid' = pid"
      "n < length (datagram_header pid' (Datagram peer chan rel b))"
      "data p = take n (datagram_header pid' (Datagram peer chan rel b))"
      by blast
    then show "fst (parse pid p) = Inl (UnexpectedEOF n)" by (rule parse_cut_short)
  qed
next
  assume "well_formed dg' \<and> m < length (datagram_header pid dg') \<and>
      data p = take m (serialize pid dg')"
  then show "fst (parse pid p) = Inl (UnexpectedEOF m)"
    using parse_truncated by blast
qed

theorem C4_parse_grammar_witness:
  "fst (parse 0x4f457403
     (ReceivedPacket_make\<lparr>data := [0x4f, 0x45, 0x74, 0x03, 0, 1, 2, 3, 0xff, 0xdc, 1, 65, 66]\<rparr>))
   = Inr (ReceivedPacket_make\<lparr>data := [0x4f, 0x45, 0x74, 0x03, 0, 1, 2, 3, 0xff, 0xdc, 1, 65, 66],
        protocol_id := 0x4f457403, peer_id := 1, channelnum := 2, rtype := RPT_ORIGINAL,
        is_reliable := True, reliable_seqnum := 65500, contents := 11, contents_size := 2\<rparr>) \<and>
   payload (ReceivedPacket_make\<lparr>data := [0x4f, 0x45, 0x74, 0x03, 0, 1, 2, 3, 0xff, 0xdc, 1, 65, 66],
        protocol_id := 0x4f457403, peer_id := 1, channelnum := 2, rtype := RPT_ORIGINAL,
        is_reliable := True, reliable_seqnum := 65500, contents := 11, contents_size := 2\<rparr>)
     = [65, 66] \<and>
   fst (parse 0x4f457403
     (ReceivedPacket_make\<lparr>data := [0x4f, 0x45, 0x74, 0x03, 0, 1, 2, 3, 0xff]\<rparr>))
   = Inl (UnexpectedEOF 9) \<and>
   fst (parse 0x4f457403 (ReceivedPacket_make\<lparr>data := [0]\<rparr>)) = Inl (UnexpectedEOF 1) \<and>
   fst (parse 0x4f457403
     (ReceivedPacket_make\<lparr>data := [0x4f, 0x45, 0x74, 0x03, 0, 1, 2, 2, 0, 7, 0, 0, 9]\<rparr>))
   = Inl (UnexpectedEOF 13)"
proof -
  let ?dg = "Datagram 1 2 (Some 65500) (Original [65, 66])"
  let ?bytes = "[0x4f, 0x45, 0x74, 0x03, 0, 1, 2, 3, 0xff, 0xdc, 1, 65, 66] :: u8 list"
  let ?p = "ReceivedPacket_make\<lparr>data := ?bytes\<rparr>"
  let ?q = "ReceivedPacket_make\<lparr>data := [0x4f, 0x45, 0x74, 0x03, 0, 1, 2, 3, 0xff]\<rparr>"
  let ?one = "ReceivedPacket_make\<lparr>data := [0]\<rparr>"
  let ?cut = "ReceivedPacket_make\<lparr>data := [0x4f, 0x45, 0x74, 0x03, 0, 1, 2, 2, 0, 7, 0, 0, 9]\<rparr>"
  have wf: "well_formed ?dg" by (simp add: CHANNEL_COUNT_def)
  have ser: "serialize 0x4f457403 ?dg = ?bytes"
    by (simp add: serialize_def be16_def be32_def drop_bit_eq_div)
  have 1: "well_formed ?dg \<and> data ?p = serialize 0x4f457403 ?dg"
    using wf ser by simp
  have 2: "well_formed ?dg \<and> 9 < length (datagram_header 0x4f457403 ?dg) \<and>
      data ?q = take 9 (serialize 0x4f457403 ?dg)"
    using wf ser by (simp add: be16_def be32_def)
  have 3: "1 = length (data ?one) \<and>
      (\<exists>pid' peer chan rel b. chan < CHANNEL_COUNT \<and> ((4::nat) \<le> 1 \<longrightarrow> pid' = 0x4f457403) \<and>
         1 < length (datagram_header pid' (Datagram peer chan rel b)) \<and>
         data ?one = take 1 (datagram_header pid' (Datagram peer chan rel b)))"
    by (intro conjI exI[of _ 0] exI[of _ None] exI[of _ "Original []"])
       (simp_all add: be16_def be32_def CHANNEL_COUNT_def)
  have 4: "13 = length (data ?cut) \<and>
      (\<exists>pid' peer chan rel b. chan < CHANNEL_COUNT \<and> ((4::nat) \<le> 13 \<longrightarrow> pid' = 0x4f457403) \<and>
         13 < length (datagram_header pid' (Datagram peer chan rel b)) \<and>
         data ?cut = take 13 (datagram_header pid' (Datagram peer chan rel b)))"
    by (intro conjI exI[of _ "0x4f457403"] exI[of _ 1] exI[of _ 2] exI[of _ None]
          exI[of _ "Split 7 0 0x900 []"])
       (simp_all add: be16_def be32_def CHANNEL_COUNT_def drop_bit_eq_div)
  have f: "parsed_fields 0x4f457403 ?dg ?p
     = ReceivedPacket_make\<lparr>data := ?bytes,
        protocol_id := 0x4f457403, peer_id := 1, channelnum := 2, rtype := RPT_ORIGINAL,
        is_reliable := True, reliable_seqnum := 65500, contents := 11, contents_size := 2\<rparr>"
    by (simp add: parsed_fields_def ReceivedPacket_make_def be16_def be32_def)
  from C4_parse_grammar[of "0x4f457403" ?p ?dg 0 ?dg 0] 1
  have "fst (parse 0x4f457403 ?p) = Inr (parsed_fields 0x4f457403 ?dg ?p) \<and>
      payload (parsed_fields 0x4f457403 ?dg ?p) = datagram_payload ?dg" by blast
  moreover from C4_parse_grammar[of "0x4f457403" ?q ?dg 0 ?dg 9] 2
  have "fst (parse 0x4f457403 ?q) = Inl (UnexpectedEOF 9)" by blast
  moreover from C4_parse_grammar[of "0x4f457403" ?one ?dg 1 ?dg 0] 3
  have "fst (parse 0x4f457403 ?one) = Inl (UnexpectedEOF 1)" by blast
  moreover from C4_parse_grammar[of "0x4f457403" ?cut ?dg 13 ?dg 0] 4
  have "fst (parse 0x4f457403 ?cut) = Inl (UnexpectedEOF 13)" by blast
  ultimately show ?thesis unfolding f by simp
qed


end
